theory Spec2Isabelle
  imports Main "HOL-Library.AList"
begin

section \<open>Constants of UnderDogs.py\<close>

definition FIRST_INVITE_ROLE_ID :: nat where
  "FIRST_INVITE_ROLE_ID = 1334406662315966474"

definition SECOND_INVITE_ROLE_ID :: nat where
  "SECOND_INVITE_ROLE_ID = 1334406729823424684"

definition NUM_GENERATED_CODES :: nat where
  "NUM_GENERATED_CODES = 3"

definition CODE_PREFIX :: string where
  "CODE_PREFIX = ''UD-''"

section \<open>The two JSON tables\<close>

text \<open>
  \<^verbatim>\<open>UnderDogInvites.json\<close> maps an owner id to \<^verbatim>\<open>{"invites": [{"code", "used_by"}, ...]}\<close>,
  \<^verbatim>\<open>UnderDogStats.json\<close> maps a user id to the number of codes that user redeemed.
  A Python dict keeps its keys in insertion order and the redemption loop walks the
  invites dict in that order, so both dicts are association lists. The inner dict has
  the single key \<^verbatim>\<open>"invites"\<close> and is modelled by the list it holds. A user is
  identified throughout by the string \<^verbatim>\<open>str(user.id)\<close>, the only form in which the
  source compares or stores it.
\<close>

record code_entry =
  code :: string
  used_by :: "string option"

type_synonym invite_info = "code_entry list"
type_synonym invites = "(string \<times> invite_info) list"
type_synonym stats = "(string \<times> int) list"

datatype failure =
  DeferFailed | LoadFailed | KeyError | NoGuild | NoMember | GrantFailed | SaveFailed | SendFailed

text \<open>
  \<^verbatim>\<open>json.load\<close> builds a dict from the members of the JSON object in the order they are
  written; a repeated key keeps its first position and takes its last value, which is
  what \<^const>\<open>AList.update\<close> does.
\<close>

definition dict_of_items :: "('k \<times> 'v) list \<Rightarrow> ('k \<times> 'v) list" where
  "dict_of_items items = foldl (\<lambda>d kv. AList.update (fst kv) (snd kv) d) [] items"

text \<open>
  A file on disk: it does not exist, it holds a complete JSON document, or it has been
  opened for writing and the write did not complete. \<^verbatim>\<open>open(filename, "w")\<close> empties the
  file before \<^verbatim>\<open>json.dump\<close> writes anything, and \<^verbatim>\<open>json.dump\<close> writes the closing brace
  last, so an interrupted write leaves a file that is empty or cut off and never a
  document.
\<close>

datatype 'a json_file = Absent | Holds 'a | Truncated

text \<open>
  \<^verbatim>\<open>load_json\<close>: a file that does not exist reads as the empty dict; opening or reading
  an existing file may raise, which the flag \<open>ok\<close> of the environment decides; a truncated
  file exists and does not parse, so \<^verbatim>\<open>json.load\<close> raises.
\<close>

definition load_json :: "bool \<Rightarrow> ('k \<times> 'v) list json_file \<Rightarrow> failure + ('k \<times> 'v) list" where
  "load_json ok file =
     (case file of
        Absent \<Rightarrow> Inr []
      | Holds items \<Rightarrow> if ok then Inr (dict_of_items items) else Inl LoadFailed
      | Truncated \<Rightarrow> Inl LoadFailed)"

text \<open>
  \<^verbatim>\<open>save_json\<close> overwrites the whole file with the dict, or raises. A save that raises
  either fails when the file is opened, which leaves the file as it was, or fails after
  the file has been opened (while writing, flushing or closing), which leaves it
  truncated; the flag \<open>truncates\<close> of the environment says which. The result is the
  exception, if any, and the file afterwards.
\<close>

definition save_json :: "bool \<Rightarrow> bool \<Rightarrow> 'a \<Rightarrow> 'a json_file \<Rightarrow> failure option \<times> 'a json_file" where
  "save_json ok truncates data file =
     (if ok then (None, Holds data)
      else if truncates then (Some SaveFailed, Truncated)
      else (Some SaveFailed, file))"

section \<open>Code generation\<close>

text \<open>
  \<^verbatim>\<open>random.randint(a, b)\<close> returns an integer between \<open>a\<close> and \<open>b\<close>, both included;
  the generator's raw output \<open>raw\<close> is reduced into that range.
\<close>

definition randint :: "nat \<Rightarrow> nat \<Rightarrow> nat \<Rightarrow> nat" where
  "randint a b raw = a + raw mod (b - a + 1)"

text \<open>The character of a decimal digit \<open>d\<close>, for \<open>d\<close> below 10.\<close>

definition digit_char :: "nat \<Rightarrow> char" where
  "digit_char d = ''0123456789'' ! d"

text \<open>\<^verbatim>\<open>str(n)\<close> for a non-negative integer.\<close>

fun str_nat :: "nat \<Rightarrow> string" where
  "str_nat n = (if n < 10 then [digit_char n] else str_nat (n div 10) @ [digit_char (n mod 10)])"

text \<open>
  \<^verbatim>\<open>generate_invite_code\<close>: six calls of \<^verbatim>\<open>random.randint(0, 9)\<close>, joined behind the
  prefix. \<open>rnd\<close> is the sequence of raw outputs of the random generator and \<open>pos\<close> the
  number of outputs already consumed.
\<close>

definition generate_invite_code :: "(nat \<Rightarrow> nat) \<Rightarrow> nat \<Rightarrow> string" where
  "generate_invite_code rnd pos =
     CODE_PREFIX @ concat (map (\<lambda>i. str_nat (randint 0 9 (rnd (pos + i)))) [0..<6])"

section \<open>System state and observable actions\<close>

datatype reason = NotFound | AlreadyUsed | SelfUse

datatype message =
  MsgNotExist | MsgAlreadyUsed | MsgOwnCode | MsgSuccess string int | MsgError failure

text \<open>
  The actions of a redemption attempt, in the order the source performs them.
  \<open>QueueInc\<close> and \<open>QueueDec\<close> are the updates of \<^verbatim>\<open>queue_position\<close>; \<open>AddRoles u r\<close> is a
  call of \<^verbatim>\<open>member.add_roles\<close> for user \<open>u\<close> with role \<open>r\<close>; \<open>Caught e\<close> is the entry into
  the \<^verbatim>\<open>except\<close> block.
\<close>

datatype event =
  Defer | LockAcquire | LockRelease | QueueInc | QueueDec | Sleep int
  | LoadInvites | LoadStats | MarkUsed string string | CountSet string int
  | AddRoles string nat | SaveInvites | SaveStats | Send message | Caught failure

record sys =
  invites_file :: "invites json_file"
  stats_file :: "stats json_file"
  queue_position :: int
  events :: "event list"

definition emit :: "event \<Rightarrow> sys \<Rightarrow> sys" where
  "emit e s = s\<lparr>events := events s @ [e]\<rparr>"

text \<open>
  What the outside world decides during one redemption attempt: whether each call that
  can raise does so, and what the guild knows.
\<close>

record env =
  defer_ok :: bool
  load_invites_ok :: bool
  load_stats_ok :: bool
  in_guild :: bool
  member_found :: bool
  first_role_found :: bool
  second_role_found :: bool
  add_roles_ok :: bool
  save_invites_ok :: bool
  save_invites_truncates :: bool
  save_stats_ok :: bool
  save_stats_truncates :: bool
  send_ok :: bool
  error_send_ok :: bool

datatype outcome = Committed int | Rejected reason | Internal failure

section \<open>EnterInviteModal.on\_submit\<close>

text \<open>\<^verbatim>\<open>str.strip()\<close> on code points below 256.\<close>

definition isspace :: "char \<Rightarrow> bool" where
  "isspace c = (of_char c \<in> {9, 10, 11, 12, 13, 28, 29, 30, 31, 32, 133, 160 :: nat})"

definition strip :: "string \<Rightarrow> string" where
  "strip s = rev (dropWhile isspace (rev (dropWhile isspace s)))"

text \<open>
  Lines 138 to 152: the search for the entered code. The three flags are the source's
  local variables; the inner loop stops at the first entry carrying the code, the outer
  loop stops as soon as \<^verbatim>\<open>found_code\<close> is set.
\<close>

record search =
  owner_id :: "string option"
  found_code :: bool
  code_used :: bool

fun inner_loop :: "string \<Rightarrow> string \<Rightarrow> code_entry list \<Rightarrow> search \<Rightarrow> search" where
  "inner_loop uid entered [] st = st"
| "inner_loop uid entered (e # es) st =
     (if code e = entered
      then (if used_by e \<noteq> None
            then st\<lparr>found_code := True, code_used := True\<rparr>
            else st\<lparr>found_code := True, owner_id := Some uid\<rparr>)
      else inner_loop uid entered es st)"

fun outer_loop :: "invites \<Rightarrow> string \<Rightarrow> search \<Rightarrow> search" where
  "outer_loop [] entered st = st"
| "outer_loop ((uid, info) # rest) entered st =
     (let st' = inner_loop uid entered info st
      in if found_code st' then st' else outer_loop rest entered st')"

definition find_code :: "invites \<Rightarrow> string \<Rightarrow> search" where
  "find_code current_invites entered =
     outer_loop current_invites entered \<lparr>owner_id = None, found_code = False, code_used = False\<rparr>"

text \<open>Lines 179 to 182: the first entry of the owner's list that carries the code is marked.\<close>

fun mark_entries :: "string \<Rightarrow> string \<Rightarrow> code_entry list \<Rightarrow> code_entry list" where
  "mark_entries entered uid [] = []"
| "mark_entries entered uid (e # es) =
     (if code e = entered then e\<lparr>used_by := Some uid\<rparr> # es
      else e # mark_entries entered uid es)"

definition mark_code :: "string option \<Rightarrow> string \<Rightarrow> string \<Rightarrow> invites \<Rightarrow> failure + invites" where
  "mark_code owner entered uid current_invites =
     (case owner of
        None \<Rightarrow> Inl KeyError
      | Some k \<Rightarrow>
          (case map_of current_invites k of
             None \<Rightarrow> Inl KeyError
           | Some info \<Rightarrow> Inr (AList.update k (mark_entries entered uid info) current_invites)))"

text \<open>\<^verbatim>\<open>current_stats.get(str(user.id), 0)\<close>\<close>

definition get_count :: "stats \<Rightarrow> string \<Rightarrow> int" where
  "get_count current_stats uid = (case map_of current_stats uid of None \<Rightarrow> 0 | Some n \<Rightarrow> n)"

text \<open>
  Lines 190 to 200. \<^verbatim>\<open>guild.get_member\<close> on a missing guild raises; a role the guild does
  not have is skipped by \<^verbatim>\<open>if role:\<close>; \<^verbatim>\<open>member.add_roles\<close> raises when the member was not
  found (the call is made on \<^verbatim>\<open>None\<close>) or when the request fails.
\<close>

definition add_role :: "env \<Rightarrow> string \<Rightarrow> bool \<Rightarrow> nat \<Rightarrow> sys \<Rightarrow> failure option \<times> sys" where
  "add_role ev uid role_found role_id s =
     (if \<not> role_found then (None, s)
      else if \<not> member_found ev then (Some NoMember, s)
      else if add_roles_ok ev then (None, emit (AddRoles uid role_id) s)
      else (Some GrantFailed, emit (AddRoles uid role_id) s))"

definition assign_roles :: "env \<Rightarrow> string \<Rightarrow> int \<Rightarrow> sys \<Rightarrow> failure option \<times> sys" where
  "assign_roles ev uid used_count s =
     (if \<not> in_guild ev then (Some NoGuild, s)
      else if used_count = 1 then add_role ev uid (first_role_found ev) FIRST_INVITE_ROLE_ID s
      else if used_count = 2 then add_role ev uid (second_role_found ev) SECOND_INVITE_ROLE_ID s
      else (None, s))"

text \<open>
  Lines 215 to 224, the \<^verbatim>\<open>except\<close> block: under the lock the counter is decremented
  when it is positive, then the error is reported; a report that fails raises out of
  the handler and leaves nothing behind.
\<close>

definition handler :: "env \<Rightarrow> failure \<Rightarrow> sys \<Rightarrow> sys" where
  "handler ev e s =
     (let s1 = emit LockAcquire (emit (Caught e) s);
          s2 = (if queue_position s1 > 0
                then emit QueueDec (s1\<lparr>queue_position := queue_position s1 - 1\<rparr>)
                else s1);
          s3 = emit LockRelease s2
      in if error_send_ok ev then emit (Send (MsgError e)) s3 else s3)"

text \<open>
  An exception raised inside \<^verbatim>\<open>async with file_lock\<close>: the lock is released on the way
  out of the block and the handler runs.
\<close>

definition raise_locked :: "env \<Rightarrow> failure \<Rightarrow> sys \<Rightarrow> sys" where
  "raise_locked ev e s = handler ev e (emit LockRelease s)"

definition reject_msg :: "reason \<Rightarrow> message" where
  "reject_msg r = (case r of NotFound \<Rightarrow> MsgNotExist | AlreadyUsed \<Rightarrow> MsgAlreadyUsed | SelfUse \<Rightarrow> MsgOwnCode)"

text \<open>
  Lines 154 to 176, one of the three rejections: the counter is decremented, the
  message is sent while the lock is still held, and \<^verbatim>\<open>return\<close> leaves the block.
\<close>

definition reject :: "env \<Rightarrow> reason \<Rightarrow> sys \<Rightarrow> sys" where
  "reject ev r s =
     (let s1 = emit QueueDec (s\<lparr>queue_position := queue_position s - 1\<rparr>)
      in if send_ok ev then emit LockRelease (emit (Send (reject_msg r)) s1)
         else raise_locked ev SendFailed s1)"

text \<open>Lines 178 to 213: the commit path, entered with the lock held.\<close>

definition commit :: "env \<Rightarrow> string \<Rightarrow> string \<Rightarrow> string option \<Rightarrow> invites \<Rightarrow> stats \<Rightarrow> sys \<Rightarrow> outcome \<times> sys" where
  "commit ev uid entered owner current_invites current_stats s =
     (case mark_code owner entered uid current_invites of
        Inl e \<Rightarrow> (Internal e, raise_locked ev e s)
      | Inr invites' \<Rightarrow>
          (let s1 = emit (MarkUsed entered uid) s;
               used_count = get_count current_stats uid + 1;
               stats' = AList.update uid used_count current_stats;
               s2 = emit (CountSet uid used_count) s1
           in case assign_roles ev uid used_count s2 of
                (Some e, s3) \<Rightarrow> (Internal e, raise_locked ev e s3)
              | (None, s3) \<Rightarrow>
                  (case save_json (save_invites_ok ev) (save_invites_truncates ev) invites'
                          (invites_file s3) of
                     (Some e, f1) \<Rightarrow> (Internal e, raise_locked ev e (s3\<lparr>invites_file := f1\<rparr>))
                   | (None, f1) \<Rightarrow>
                       (let s4 = emit SaveInvites (s3\<lparr>invites_file := f1\<rparr>)
                        in case save_json (save_stats_ok ev) (save_stats_truncates ev) stats'
                                (stats_file s4) of
                             (Some e, f2) \<Rightarrow>
                               (Internal e, raise_locked ev e (s4\<lparr>stats_file := f2\<rparr>))
                           | (None, f2) \<Rightarrow>
                               (let s5 = emit SaveStats (s4\<lparr>stats_file := f2\<rparr>);
                                    s6 = emit QueueDec (s5\<lparr>queue_position := queue_position s5 - 1\<rparr>);
                                    s7 = emit LockRelease s6
                                in (Committed used_count,
                                    if send_ok ev then emit (Send (MsgSuccess entered used_count)) s7
                                    else handler ev SendFailed s7))))))"

text \<open>
  Lines 132 to 176: the critical section up to the decision. Both files are reloaded,
  the code is searched, and the three checks run in the order of the source.
\<close>

definition critical :: "env \<Rightarrow> string \<Rightarrow> string \<Rightarrow> sys \<Rightarrow> outcome \<times> sys" where
  "critical ev uid entered s =
     (let s1 = emit LockAcquire s
      in case load_json (load_invites_ok ev) (invites_file s1) of
           Inl e \<Rightarrow> (Internal e, raise_locked ev e s1)
         | Inr current_invites \<Rightarrow>
             (let s2 = emit LoadInvites s1
              in case load_json (load_stats_ok ev) (stats_file s2) of
                   Inl e \<Rightarrow> (Internal e, raise_locked ev e s2)
                 | Inr current_stats \<Rightarrow>
                     (let s3 = emit LoadStats s2;
                          found = find_code current_invites entered
                      in if \<not> found_code found then (Rejected NotFound, reject ev NotFound s3)
                         else if code_used found then (Rejected AlreadyUsed, reject ev AlreadyUsed s3)
                         else if Some uid = owner_id found then (Rejected SelfUse, reject ev SelfUse s3)
                         else commit ev uid entered (owner_id found) current_invites current_stats s3)))"

text \<open>Lines 121 to 129: the ticket is taken under the lock, then the coroutine sleeps.\<close>

definition enter :: "sys \<Rightarrow> sys" where
  "enter s =
     (let s1 = emit LockAcquire s;
          s2 = emit QueueInc (s1\<lparr>queue_position := queue_position s1 + 1\<rparr>);
          my_place_in_line = queue_position s2;
          s3 = emit LockRelease s2
      in emit (Sleep my_place_in_line) s3)"

text \<open>
  The whole handler for user \<open>uid\<close> and the text \<open>raw\<close> typed into the modal. A deferral
  that fails raises before the \<^verbatim>\<open>try\<close> block and the attempt never starts.
\<close>

definition on_submit :: "env \<Rightarrow> string \<Rightarrow> string \<Rightarrow> sys \<Rightarrow> outcome \<times> sys" where
  "on_submit ev uid raw s =
     (let entered_code = strip raw
      in if \<not> defer_ok ev then (Internal DeferFailed, s)
         else critical ev uid entered_code (enter (emit Defer s)))"

section \<open>DashboardView.open\_dashboard\_button\<close>

text \<open>
  What the outside world decides during one click of the dashboard button: whether the
  member has the generator role, whether the file operations succeed, and the raw
  outputs of the random generator.
\<close>

record gen_env =
  has_generator_role :: bool
  gen_load_ok :: bool
  gen_save_ok :: bool
  gen_save_truncates :: bool
  rnd :: "nat \<Rightarrow> nat"

text \<open>Lines 252 to 257: the batch of fresh entries, six random outputs per code.\<close>

definition new_entries :: "(nat \<Rightarrow> nat) \<Rightarrow> code_entry list" where
  "new_entries r =
     map (\<lambda>j. \<lparr>code = generate_invite_code r (6 * j), used_by = None\<rparr>) [0..<NUM_GENERATED_CODES]"

text \<open>
  Lines 243 to 258. The file is read and written without the lock. A failing load raises
  out of the callback with the state as it was; a failing save raises out of the callback
  with the invites file as the save left it. An exception is returned as \<open>Inl\<close> with the
  state it leaves behind.
\<close>

definition open_dashboard_button :: "gen_env \<Rightarrow> string \<Rightarrow> sys \<Rightarrow> (failure \<times> sys) + sys" where
  "open_dashboard_button g uid s =
     (if has_generator_role g
      then (case load_json (gen_load_ok g) (invites_file s) of
              Inl e \<Rightarrow> Inl (e, s)
            | Inr invites_data \<Rightarrow>
                if map_of invites_data uid = None
                then (case save_json (gen_save_ok g) (gen_save_truncates g)
                             (AList.update uid (new_entries (rnd g)) invites_data) (invites_file s) of
                        (Some e, f) \<Rightarrow> Inl (e, s\<lparr>invites_file := f\<rparr>)
                      | (None, f) \<Rightarrow> Inr (s\<lparr>invites_file := f\<rparr>))
                else Inr s)
      else Inr s)"

section \<open>Vocabulary of the properties\<close>

text \<open>
  What a reload of each table returns when it succeeds: the persisted ledger and the
  persisted counts. A truncated file has no readable content, and no reload of it
  succeeds.
\<close>

definition ledger :: "sys \<Rightarrow> invites" where
  "ledger s =
     (case invites_file s of Absent \<Rightarrow> [] | Holds items \<Rightarrow> dict_of_items items | Truncated \<Rightarrow> [])"

definition counts :: "sys \<Rightarrow> stats" where
  "counts s =
     (case stats_file s of Absent \<Rightarrow> [] | Holds items \<Rightarrow> dict_of_items items | Truncated \<Rightarrow> [])"

text \<open>
  The specification's reading of validation: the code is looked up among all entries of
  the ledger, owner by owner in ledger order; it must exist, be unused, and not belong
  to the redeemer.
\<close>

definition ledger_entries :: "invites \<Rightarrow> (string \<times> code_entry) list" where
  "ledger_entries tbl = concat (map (\<lambda>p. map (Pair (fst p)) (snd p)) tbl)"

definition lookup_code :: "invites \<Rightarrow> string \<Rightarrow> (string \<times> code_entry) option" where
  "lookup_code tbl c = find (\<lambda>p. code (snd p) = c) (ledger_entries tbl)"

datatype verdict = Reject reason | Accept

definition spec_validate :: "invites \<Rightarrow> string \<Rightarrow> string \<Rightarrow> verdict" where
  "spec_validate tbl c uid =
     (case lookup_code tbl c of
        None \<Rightarrow> Reject NotFound
      | Some p \<Rightarrow>
          if used_by (snd p) \<noteq> None then Reject AlreadyUsed
          else if uid = fst p then Reject SelfUse
          else Accept)"

text \<open>The invites file holds an entry with code \<open>c\<close> that is used by \<open>uid\<close>.\<close>

definition redeemed_in :: "invites json_file \<Rightarrow> string \<Rightarrow> string \<Rightarrow> bool" where
  "redeemed_in file c uid =
     (case file of
        Holds tbl \<Rightarrow> list_ex (\<lambda>p. list_ex (\<lambda>e. code e = c \<and> used_by e = Some uid) (snd p)) tbl
      | _ \<Rightarrow> False)"

text \<open>The role grants requested in a trace, as pairs of user and role.\<close>

fun grants :: "event list \<Rightarrow> (string \<times> nat) list" where
  "grants [] = []"
| "grants (AddRoles u r # es) = (u, r) # grants es"
| "grants (e # es) = grants es"

text \<open>The roles an attempt requests for a new count, given the roles the guild has.\<close>

definition granted_roles :: "env \<Rightarrow> int \<Rightarrow> nat list" where
  "granted_roles ev n =
     (if n = 1 \<and> first_role_found ev then [FIRST_INVITE_ROLE_ID]
      else if n = 2 \<and> second_role_found ev then [SECOND_INVITE_ROLE_ID]
      else [])"

text \<open>The state in which the checks run: deferred, ticket taken, slept, lock held, both tables reloaded.\<close>

definition decision_point :: "sys \<Rightarrow> sys" where
  "decision_point s = emit LoadStats (emit LoadInvites (emit LockAcquire (enter (emit Defer s))))"

text \<open>
  The specification's order of dispatch, checked on a trace: a role grant may only be
  requested while the lock is free (\<open>locked\<close> is false) and after both tables have been
  saved (\<open>persisted\<close> is true).
\<close>

fun dispatch_ok :: "bool \<Rightarrow> bool \<Rightarrow> event list \<Rightarrow> bool" where
  "dispatch_ok locked persisted [] = True"
| "dispatch_ok locked persisted (LockAcquire # es) = dispatch_ok True persisted es"
| "dispatch_ok locked persisted (LockRelease # es) = dispatch_ok False persisted es"
| "dispatch_ok locked persisted (SaveStats # es) = dispatch_ok locked True es"
| "dispatch_ok locked persisted (AddRoles u r # es) = (\<not> locked \<and> persisted \<and> dispatch_ok locked persisted es)"
| "dispatch_ok locked persisted (e # es) = dispatch_ok locked persisted es"

text \<open>All code values of a ledger, owner by owner.\<close>

definition all_codes :: "invites \<Rightarrow> string list" where
  "all_codes tbl = map code (concat (map snd tbl))"

text \<open>The state after a click, whether it returned or raised.\<close>

definition state_after :: "(failure \<times> sys) + sys \<Rightarrow> sys \<Rightarrow> sys" where
  "state_after r s = (case r of Inl x \<Rightarrow> snd x | Inr s' \<Rightarrow> s')"

text \<open>
  An entry is kept when its code is the same and, once used, its redeemer is the same; a
  ledger is kept when it has the same owners in the same order and every entry is kept.
\<close>

definition entry_kept :: "code_entry \<Rightarrow> code_entry \<Rightarrow> bool" where
  "entry_kept e e' = (code e' = code e \<and> (used_by e = None \<or> used_by e' = used_by e))"

definition ledger_kept :: "invites \<Rightarrow> invites \<Rightarrow> bool" where
  "ledger_kept t t' =
     list_all2 (\<lambda>p p'. fst p' = fst p \<and> list_all2 entry_kept (snd p) (snd p')) t t'"

text \<open>
  An environment in which a save fails after the file has been opened, so that the file
  is left truncated.
\<close>

definition truncating :: "env \<Rightarrow> bool" where
  "truncating ev =
     ((\<not> save_invites_ok ev \<and> save_invites_truncates ev) \<or>
      (\<not> save_stats_ok ev \<and> save_stats_truncates ev))"

text \<open>A sequence of redemption attempts, each with its own environment, user and input.\<close>

fun run_attempts :: "(env \<times> string \<times> string) list \<Rightarrow> sys \<Rightarrow> sys" where
  "run_attempts [] s = s"
| "run_attempts (a # as) s = run_attempts as (snd (on_submit (fst a) (fst (snd a)) (snd (snd a)) s))"

section \<open>Example inputs\<close>

text \<open>An environment in which every call succeeds and the guild has the member and both roles.\<close>

definition env_all_ok :: env where
  "env_all_ok = \<lparr>defer_ok = True, load_invites_ok = True, load_stats_ok = True, in_guild = True,
     member_found = True, first_role_found = True, second_role_found = True, add_roles_ok = True,
     save_invites_ok = True, save_invites_truncates = False, save_stats_ok = True,
     save_stats_truncates = False, send_ok = True, error_send_ok = True\<rparr>"

text \<open>
  A ledger in which user A owns two unused codes; no stats file yet, nobody in the queue.
  The variants add a stats file with an entry for another user, and one attempt that
  already holds a ticket.
\<close>

definition demo_sys :: sys where
  "demo_sys = \<lparr>invites_file = Holds [(''A'', [\<lparr>code = ''UD-123456'', used_by = None\<rparr>,
                                            \<lparr>code = ''UD-234567'', used_by = None\<rparr>])],
     stats_file = Absent, queue_position = 0, events = []\<rparr>"

definition demo_sys_with_stats :: sys where
  "demo_sys_with_stats = demo_sys\<lparr>stats_file := Holds [(''C'', 2)]\<rparr>"

definition demo_sys_queued :: sys where
  "demo_sys_queued = demo_sys\<lparr>queue_position := 1\<rparr>"

text \<open>Environments in which one thing goes wrong.\<close>

definition env_stats_save_fails :: env where
  "env_stats_save_fails = env_all_ok\<lparr>save_stats_ok := False\<rparr>"

definition env_stats_write_fails :: env where
  "env_stats_write_fails = env_all_ok\<lparr>save_stats_ok := False, save_stats_truncates := True\<rparr>"

definition env_invites_write_fails :: env where
  "env_invites_write_fails = env_all_ok\<lparr>save_invites_ok := False, save_invites_truncates := True\<rparr>"

definition env_no_first_role :: env where
  "env_no_first_role = env_all_ok\<lparr>first_role_found := False\<rparr>"

definition env_send_fails :: env where
  "env_send_fails = env_all_ok\<lparr>send_ok := False\<rparr>"

text \<open>Two generator runs: the raw outputs 1, 2, 3, ... and the raw outputs 0, 2, 4, ...\<close>

definition gen_counting :: gen_env where
  "gen_counting = \<lparr>has_generator_role = True, gen_load_ok = True, gen_save_ok = True,
     gen_save_truncates = False,
     rnd = (\<lambda>i. i + 1)\<rparr>"

definition gen_even :: gen_env where
  "gen_even = \<lparr>has_generator_role = True, gen_load_ok = True, gen_save_ok = True,
     gen_save_truncates = False,
     rnd = (\<lambda>i. 2 * i)\<rparr>"

section \<open>Auxiliary facts\<close>

lemma emit_simps [simp]:
  "invites_file (emit e s) = invites_file s"
  "stats_file (emit e s) = stats_file s"
  "queue_position (emit e s) = queue_position s"
  "events (emit e s) = events s @ [e]"
  by (simp_all add: emit_def)

lemma handler_files [simp]:
  "invites_file (handler ev e s) = invites_file s"
  "stats_file (handler ev e s) = stats_file s"
  by (simp_all add: handler_def Let_def)

lemma raise_locked_files [simp]:
  "invites_file (raise_locked ev e s) = invites_file s"
  "stats_file (raise_locked ev e s) = stats_file s"
  by (simp_all add: raise_locked_def)

lemma reject_files [simp]:
  "invites_file (reject ev r s) = invites_file s"
  "stats_file (reject ev r s) = stats_file s"
  by (simp_all add: reject_def Let_def)

lemma enter_files [simp]:
  "invites_file (enter s) = invites_file s"
  "stats_file (enter s) = stats_file s"
  by (simp_all add: enter_def Let_def)

lemma assign_roles_files:
  "assign_roles ev uid n s = (r, s') \<Longrightarrow>
     invites_file s' = invites_file s \<and> stats_file s' = stats_file s \<and>
     queue_position s' = queue_position s \<and> (r = None \<longrightarrow> in_guild ev) \<and> r \<noteq> Some SaveFailed"
  by (auto simp: assign_roles_def add_role_def split: if_splits)

lemma load_json_Inl: "load_json ok file = Inl e \<Longrightarrow> e = LoadFailed"
  by (auto simp: load_json_def split: option.splits json_file.splits if_splits)

lemma mark_code_Inl: "mark_code owner c uid tbl = Inl e \<Longrightarrow> e = KeyError"
  by (auto simp: mark_code_def split: option.splits json_file.splits)

lemma load_json_ledger:
  "invites_file s \<noteq> Truncated \<Longrightarrow> load_json True (invites_file s) = Inr (ledger s)"
  by (simp add: load_json_def ledger_def split: json_file.splits)

lemma load_json_counts:
  "stats_file s \<noteq> Truncated \<Longrightarrow> load_json True (stats_file s) = Inr (counts s)"
  by (simp add: load_json_def counts_def split: json_file.splits)

lemma load_json_readable: "load_json ok file = Inr x \<Longrightarrow> file \<noteq> Truncated"
  by (auto simp: load_json_def)

lemma save_json_cases:
  "save_json ok tr data file = (r, f) \<Longrightarrow>
     (ok \<and> r = None \<and> f = Holds data) \<or>
     (\<not> ok \<and> r = Some SaveFailed \<and> f = (if tr then Truncated else file))"
  by (auto simp: save_json_def split: if_splits)

lemma inner_loop_find:
  "inner_loop uid c es st =
     (case find (\<lambda>e. code e = c) es of
        None \<Rightarrow> st
      | Some e \<Rightarrow> if used_by e \<noteq> None then st\<lparr>found_code := True, code_used := True\<rparr>
                  else st\<lparr>found_code := True, owner_id := Some uid\<rparr>)"
  by (induction es) auto

lemma find_app:
  "find P (xs @ ys) = (case find P xs of None \<Rightarrow> find P ys | Some x \<Rightarrow> Some x)"
  by (induction xs) auto

lemma find_map_Pair:
  "find (\<lambda>p. code (snd p) = c) (map (Pair k) es) = map_option (Pair k) (find (\<lambda>e. code e = c) es)"
  by (induction es) auto

lemma outer_loop_lookup:
  "\<not> found_code st \<Longrightarrow>
   outer_loop tbl c st =
     (case lookup_code tbl c of
        None \<Rightarrow> st
      | Some p \<Rightarrow> if used_by (snd p) \<noteq> None then st\<lparr>found_code := True, code_used := True\<rparr>
                  else st\<lparr>found_code := True, owner_id := Some (fst p)\<rparr>)"
proof (induction tbl)
  case Nil
  then show ?case by (simp add: lookup_code_def ledger_entries_def)
next
  case (Cons a tbl)
  obtain k es where a: "a = (k, es)" by (cases a)
  show ?case
  proof (cases "find (\<lambda>e. code e = c) es")
    case None
    with Cons a show ?thesis
      by (simp add: lookup_code_def ledger_entries_def inner_loop_find find_app find_map_Pair)
  next
    case (Some e)
    with Cons a show ?thesis
      by (simp add: lookup_code_def ledger_entries_def inner_loop_find find_app find_map_Pair)
  qed
qed

lemma find_code_lookup:
  "find_code tbl c =
     (case lookup_code tbl c of
        None \<Rightarrow> \<lparr>owner_id = None, found_code = False, code_used = False\<rparr>
      | Some p \<Rightarrow> if used_by (snd p) \<noteq> None
                  then \<lparr>owner_id = None, found_code = True, code_used = True\<rparr>
                  else \<lparr>owner_id = Some (fst p), found_code = True, code_used = False\<rparr>)"
  by (simp add: find_code_def outer_loop_lookup split: option.splits json_file.splits)

lemma load_json_Inr:
  "load_json ok (invites_file s) = Inr x \<Longrightarrow> x = ledger s"
  "load_json ok (stats_file s) = Inr y \<Longrightarrow> y = counts s"
  by (auto simp: load_json_def ledger_def counts_def split: option.splits json_file.splits if_splits)

lemma commit_cases:
  assumes "commit ev uid c owner tbl st s = (out, s')"
  shows "(\<exists>f. out = Internal f \<and> f \<noteq> SaveFailed \<and>
            invites_file s' = invites_file s \<and> stats_file s' = stats_file s)
       \<or> (out = Internal SaveFailed \<and> \<not> save_invites_ok ev \<and> stats_file s' = stats_file s \<and>
            invites_file s' = (if save_invites_truncates ev then Truncated else invites_file s))
       \<or> (out = Internal SaveFailed \<and> save_invites_ok ev \<and> \<not> save_stats_ok ev \<and>
            (\<exists>tbl'. mark_code owner c uid tbl = Inr tbl' \<and> invites_file s' = Holds tbl') \<and>
            stats_file s' = (if save_stats_truncates ev then Truncated else stats_file s))
       \<or> (\<exists>tbl'. mark_code owner c uid tbl = Inr tbl' \<and>
             out = Committed (get_count st uid + 1) \<and>
             invites_file s' = Holds tbl' \<and>
             stats_file s' = Holds (AList.update uid (get_count st uid + 1) st) \<and>
             in_guild ev \<and> save_invites_ok ev \<and> save_stats_ok ev)"
proof (cases "mark_code owner c uid tbl")
  case (Inl e)
  with assms show ?thesis by (auto simp: commit_def dest: mark_code_Inl)
next
  case (Inr tbl')
  let ?n = "get_count st uid + 1"
  obtain r s3 where ar: "assign_roles ev uid ?n (emit (CountSet uid ?n) (emit (MarkUsed c uid) s)) = (r, s3)"
    by (cases "assign_roles ev uid ?n (emit (CountSet uid ?n) (emit (MarkUsed c uid) s))")
  from assign_roles_files [OF ar] have s3: "invites_file s3 = invites_file s"
    "stats_file s3 = stats_file s" "r = None \<longrightarrow> in_guild ev" "r \<noteq> Some SaveFailed"
    by simp_all
  show ?thesis
  proof (cases r)
    case (Some e)
    with assms Inr ar s3 show ?thesis by (auto simp: commit_def Let_def)
  next
    case None
    show ?thesis
    proof (cases "save_invites_ok ev")
      case False
      with assms Inr ar None s3 show ?thesis
        by (auto simp: commit_def Let_def save_json_def)
    next
      case inv_ok: True
      show ?thesis
      proof (cases "save_stats_ok ev")
        case False
        with assms Inr ar None s3 inv_ok show ?thesis
          by (auto simp: commit_def Let_def save_json_def)
      next
        case True
        with assms Inr ar None s3 inv_ok show ?thesis
          by (auto simp: commit_def Let_def save_json_def)
      qed
    qed
  qed
qed

lemma on_submit_cases:
  assumes "on_submit ev uid raw s = (out, s')"
  shows "((out = Internal DeferFailed \<or> out = Internal LoadFailed) \<and>
          invites_file s' = invites_file s \<and> stats_file s' = stats_file s)
       \<or> (\<exists>r. out = Rejected r \<and> spec_validate (ledger s) (strip raw) uid = Reject r \<and>
             invites_file s' = invites_file s \<and> stats_file s' = stats_file s)
       \<or> (spec_validate (ledger s) (strip raw) uid = Accept \<and>
           invites_file s \<noteq> Truncated \<and> stats_file s \<noteq> Truncated \<and>
           (\<exists>p s1. lookup_code (ledger s) (strip raw) = Some p \<and> used_by (snd p) = None \<and> fst p \<noteq> uid \<and>
              invites_file s1 = invites_file s \<and> stats_file s1 = stats_file s \<and>
              commit ev uid (strip raw) (Some (fst p)) (ledger s) (counts s) s1 = (out, s')))"
proof (cases "defer_ok ev")
  case False
  with assms show ?thesis by (auto simp: on_submit_def Let_def)
next
  case True
  define s1 where "s1 = emit LockAcquire (enter (emit Defer s))"
  have f1: "invites_file s1 = invites_file s" "stats_file s1 = stats_file s"
    by (simp_all add: s1_def)
  have run: "critical ev uid (strip raw) (enter (emit Defer s)) = (out, s')"
    using assms True by (simp add: on_submit_def Let_def)
  show ?thesis
  proof (cases "load_json (load_invites_ok ev) (invites_file s)")
    case (Inl e)
    with run show ?thesis by (auto simp: critical_def Let_def dest: load_json_Inl)
  next
    case (Inr x)
    then have x: "x = ledger s" and rx: "invites_file s \<noteq> Truncated"
      by (auto dest: load_json_Inr load_json_readable)
    show ?thesis
    proof (cases "load_json (load_stats_ok ev) (stats_file s)")
      case (Inl e)
      with run Inr show ?thesis by (auto simp: critical_def Let_def dest: load_json_Inl)
    next
      case inr2: (Inr y)
      then have y: "y = counts s" and ry: "stats_file s \<noteq> Truncated"
        by (auto dest: load_json_Inr load_json_readable)
      show ?thesis
      proof (cases "lookup_code (ledger s) (strip raw)")
        case None
        with run Inr inr2 x y rx ry show ?thesis
          by (auto simp: critical_def Let_def find_code_lookup spec_validate_def)
      next
        case (Some p)
        with run Inr inr2 x y rx ry show ?thesis
          by (auto simp: critical_def Let_def find_code_lookup spec_validate_def split: if_splits)
      qed
    qed
  qed
qed

lemma find_SomeD: "find P xs = Some x \<Longrightarrow> x \<in> set xs \<and> P x"
  by (induction xs) (auto split: if_splits)

lemma set_ledger_entries:
  "set (ledger_entries tbl) = {p. \<exists>info. (fst p, info) \<in> set tbl \<and> snd p \<in> set info}"
  by (force simp: ledger_entries_def)

lemma lookup_code_owner:
  "lookup_code tbl c = Some p \<Longrightarrow>
     \<exists>info. (fst p, info) \<in> set tbl \<and> snd p \<in> set info \<and> code (snd p) = c"
  unfolding lookup_code_def
  by (drule find_SomeD) (simp add: set_ledger_entries)

lemma lookup_code_None:
  "lookup_code tbl c = None \<longleftrightarrow> (\<forall>p \<in> set (ledger_entries tbl). code (snd p) \<noteq> c)"
  unfolding lookup_code_def find_None_iff by blast

lemma mark_code_Inr:
  "lookup_code tbl c = Some p \<Longrightarrow> \<exists>tbl'. mark_code (Some (fst p)) c uid tbl = Inr tbl'"
proof -
  assume "lookup_code tbl c = Some p"
  then obtain info where "(fst p, info) \<in> set tbl" by (blast dest: lookup_code_owner)
  then have "map_of tbl (fst p) \<noteq> None"
    by (metis map_of_eq_None_iff image_eqI fst_conv)
  then show ?thesis by (auto simp: mark_code_def)
qed

lemma commit_not_rejected: "fst (commit ev uid c owner tbl st s) \<noteq> Rejected r"
  using commit_cases [of ev uid c owner tbl st s "fst (commit ev uid c owner tbl st s)"
      "snd (commit ev uid c owner tbl st s)"]
  by auto

lemma commit_ok:
  assumes "mark_code owner c uid tbl = Inr tbl'" "in_guild ev" "member_found ev" "add_roles_ok ev"
    "save_invites_ok ev" "save_stats_ok ev"
  shows "fst (commit ev uid c owner tbl st s) = Committed (get_count st uid + 1)"
proof -
  let ?n = "get_count st uid + 1"
  let ?s2 = "emit (CountSet uid ?n) (emit (MarkUsed c uid) s)"
  have "fst (assign_roles ev uid ?n ?s2) = None"
    using assms(2-4) by (simp add: assign_roles_def add_role_def)
  then obtain s3 where "assign_roles ev uid ?n ?s2 = (None, s3)"
    by (cases "assign_roles ev uid ?n ?s2") auto
  with assms(1,5,6) show ?thesis
    by (simp add: commit_def Let_def save_json_def)
qed

lemma on_submit_loaded:
  assumes "defer_ok ev" "load_invites_ok ev" "load_stats_ok ev"
    and "invites_file s \<noteq> Truncated" "stats_file s \<noteq> Truncated"
  shows "on_submit ev uid raw s =
     (let s1 = emit LoadStats (emit LoadInvites (emit LockAcquire (enter (emit Defer s))))
      in case spec_validate (ledger s) (strip raw) uid of
           Reject r \<Rightarrow> (Rejected r, reject ev r s1)
         | Accept \<Rightarrow> commit ev uid (strip raw) (map_option fst (lookup_code (ledger s) (strip raw)))
                       (ledger s) (counts s) s1)"
proof -
  let ?s0 = "emit LockAcquire (enter (emit Defer s))"
  have l1: "load_json (load_invites_ok ev) (invites_file ?s0) = Inr (ledger s)"
    using assms(2,4) by (simp add: load_json_def ledger_def split: json_file.splits)
  have l2: "load_json (load_stats_ok ev) (stats_file (emit LoadInvites ?s0)) = Inr (counts s)"
    using assms(3,5) by (simp add: load_json_def counts_def split: json_file.splits)
  show ?thesis
    using assms(1) l1 l2
    by (auto simp: on_submit_def critical_def Let_def find_code_lookup spec_validate_def
        split: option.splits)
qed

lemma demo_ledger:
  "ledger demo_sys = [(''A'', [\<lparr>code = ''UD-123456'', used_by = None\<rparr>,
                               \<lparr>code = ''UD-234567'', used_by = None\<rparr>])]"
  by (simp add: ledger_def demo_sys_def dict_of_items_def)

lemma strip_demo: "strip '' UD-123456 '' = ''UD-123456''" "strip ''UD-234567'' = ''UD-234567''"
  by (simp_all add: strip_def isspace_def)

lemma update_fresh: "k \<notin> fst ` set d \<Longrightarrow> AList.update k v d = d @ [(k, v)]"
  by (induction d) auto

lemma foldl_update_distinct:
  "distinct (map fst d) \<Longrightarrow>
     distinct (map fst (foldl (\<lambda>d kv. AList.update (fst kv) (snd kv) d) d xs))"
  by (induction xs arbitrary: d) (simp_all add: distinct_update)

lemma distinct_dict_of_items: "distinct (map fst (dict_of_items xs))"
  by (simp add: dict_of_items_def foldl_update_distinct)

lemma foldl_update_append:
  "distinct (map fst (d @ xs)) \<Longrightarrow>
     foldl (\<lambda>d kv. AList.update (fst kv) (snd kv) d) d xs = d @ xs"
proof (induction xs arbitrary: d)
  case Nil
  then show ?case by simp
next
  case (Cons x xs)
  have "fst x \<notin> fst ` set d" using Cons.prems by auto
  then have "AList.update (fst x) (snd x) d = d @ [x]" by (simp add: update_fresh)
  moreover have "distinct (map fst ((d @ [x]) @ xs))" using Cons.prems by simp
  ultimately show ?case using Cons.IH [of "d @ [x]"] by simp
qed

lemma dict_of_items_id: "distinct (map fst xs) \<Longrightarrow> dict_of_items xs = xs"
  using foldl_update_append [of "[]" xs] by (simp add: dict_of_items_def)

lemma distinct_ledger: "distinct (map fst (ledger s))"
  by (simp add: ledger_def distinct_dict_of_items split: json_file.splits)

lemma ledger_saved:
  "distinct (map fst tbl) \<Longrightarrow> invites_file s' = Holds tbl \<Longrightarrow> ledger s' = tbl"
  by (simp add: ledger_def dict_of_items_id)

lemma ledger_same: "invites_file s' = invites_file s \<Longrightarrow> ledger s' = ledger s"
  by (simp add: ledger_def)

lemma counts_same: "stats_file s' = stats_file s \<Longrightarrow> counts s' = counts s"
  by (simp add: counts_def)

lemma mark_entries_nth:
  "j < length es \<Longrightarrow> code (es ! j) = c \<Longrightarrow> (\<forall>j' < j. code (es ! j') \<noteq> c) \<Longrightarrow>
     mark_entries c uid es = es[j := (es ! j)\<lparr>used_by := Some uid\<rparr>]"
proof (induction es arbitrary: j)
  case Nil
  then show ?case by simp
next
  case (Cons e es)
  show ?case
  proof (cases j)
    case 0
    with Cons.prems show ?thesis by simp
  next
    case (Suc m)
    with Cons.prems have "code e \<noteq> c" by auto
    moreover have "mark_entries c uid es = es[m := (es ! m)\<lparr>used_by := Some uid\<rparr>]"
      using Cons.prems Suc by (intro Cons.IH) auto
    ultimately show ?thesis using Suc by simp
  qed
qed

lemma update_nth:
  "distinct (map fst tbl) \<Longrightarrow> i < length tbl \<Longrightarrow> fst (tbl ! i) = k \<Longrightarrow>
     AList.update k v tbl = tbl[i := (k, v)]"
proof (induction tbl arbitrary: i)
  case Nil
  then show ?case by simp
next
  case (Cons a tbl)
  show ?case
  proof (cases i)
    case 0
    with Cons.prems show ?thesis by simp
  next
    case (Suc m)
    with Cons.prems have "fst a \<noteq> k" by (auto dest: nth_mem)
    with Cons Suc show ?thesis by simp
  qed
qed

lemma map_of_nth:
  "distinct (map fst tbl) \<Longrightarrow> i < length tbl \<Longrightarrow> map_of tbl (fst (tbl ! i)) = Some (snd (tbl ! i))"
  by (simp add: map_of_eq_Some_iff)

lemma lookup_code_Cons:
  "lookup_code ((k, es) # tbl) c =
     (case find (\<lambda>e. code e = c) es of Some e \<Rightarrow> Some (k, e) | None \<Rightarrow> lookup_code tbl c)"
  by (simp add: lookup_code_def ledger_entries_def find_app find_map_Pair split: option.splits json_file.splits)

lemma lookup_code_nth:
  "lookup_code tbl c = Some p \<Longrightarrow>
     \<exists>i < length tbl. fst (tbl ! i) = fst p \<and> find (\<lambda>e. code e = c) (snd (tbl ! i)) = Some (snd p)"
proof (induction tbl)
  case Nil
  then show ?case by (simp add: lookup_code_def ledger_entries_def)
next
  case (Cons a tbl)
  obtain k es where a: "a = (k, es)" by (cases a)
  show ?case
  proof (cases "find (\<lambda>e. code e = c) es")
    case None
    with Cons a obtain i where "i < length tbl" "fst (tbl ! i) = fst p"
      "find (\<lambda>e. code e = c) (snd (tbl ! i)) = Some (snd p)"
      by (auto simp: lookup_code_Cons)
    then show ?thesis by (intro exI [of _ "Suc i"]) simp
  next
    case (Some e)
    with Cons.prems a show ?thesis by (intro exI [of _ 0]) (auto simp: lookup_code_Cons)
  qed
qed

lemma mark_code_frame:
  assumes "distinct (map fst tbl)" "lookup_code tbl c = Some p"
  shows "\<exists>i j. i < length tbl \<and> j < length (snd (tbl ! i)) \<and> fst (tbl ! i) = fst p \<and>
           snd (tbl ! i) ! j = snd p \<and> code (snd p) = c \<and>
           mark_code (Some (fst p)) c uid tbl =
             Inr (tbl[i := (fst p, (snd (tbl ! i))[j := (snd p)\<lparr>used_by := Some uid\<rparr>])])"
proof -
  from assms(2) obtain i where i: "i < length tbl" "fst (tbl ! i) = fst p"
    and f: "find (\<lambda>e. code e = c) (snd (tbl ! i)) = Some (snd p)"
    by (blast dest: lookup_code_nth)
  from f obtain j where j: "j < length (snd (tbl ! i))" "snd (tbl ! i) ! j = snd p"
    "code (snd p) = c" "\<forall>j' < j. code (snd (tbl ! i) ! j') \<noteq> c"
    by (auto simp: find_Some_iff)
  have m: "map_of tbl (fst p) = Some (snd (tbl ! i))"
    using map_of_nth [OF assms(1) i(1)] i(2) by simp
  have "mark_entries c uid (snd (tbl ! i)) = (snd (tbl ! i))[j := (snd p)\<lparr>used_by := Some uid\<rparr>]"
    using mark_entries_nth [of j "snd (tbl ! i)" c uid] j by simp
  then have "mark_code (Some (fst p)) c uid tbl =
      Inr (tbl[i := (fst p, (snd (tbl ! i))[j := (snd p)\<lparr>used_by := Some uid\<rparr>])])"
    using m update_nth [OF assms(1) i] by (simp add: mark_code_def)
  with i j show ?thesis by blast
qed

lemma committedD:
  assumes "on_submit ev uid raw s = (Committed n, s')"
  shows "\<exists>p tbl'. lookup_code (ledger s) (strip raw) = Some p \<and> used_by (snd p) = None \<and>
           fst p \<noteq> uid \<and> mark_code (Some (fst p)) (strip raw) uid (ledger s) = Inr tbl' \<and>
           invites_file s' = Holds tbl' \<and> n = get_count (counts s) uid + 1 \<and>
           stats_file s' = Holds (AList.update uid n (counts s)) \<and>
           in_guild ev \<and> save_invites_ok ev \<and> save_stats_ok ev"
proof -
  from on_submit_cases [OF assms]
  obtain p s1 where p: "lookup_code (ledger s) (strip raw) = Some p" "used_by (snd p) = None"
      "fst p \<noteq> uid"
    and c: "commit ev uid (strip raw) (Some (fst p)) (ledger s) (counts s) s1 = (Committed n, s')"
    by auto
  from commit_cases [OF c] p show ?thesis by auto
qed

lemma demo_commit: "fst (on_submit env_all_ok ''B'' ''UD-234567'' demo_sys) = Committed 1"
  by (simp add: on_submit_def strip_def isspace_def critical_def enter_def emit_def
      load_json_def dict_of_items_def find_code_def commit_def mark_code_def get_count_def
      assign_roles_def add_role_def save_json_def Let_def env_all_ok_def demo_sys_def)

lemma mark_code_redeemed:
  assumes "lookup_code (ledger s) c = Some p" "mark_code (Some (fst p)) c uid (ledger s) = Inr tbl'"
  shows "redeemed_in (Holds tbl') c uid"
proof -
  from mark_code_frame [OF distinct_ledger assms(1), of uid] assms(2) obtain i j where
    ij: "i < length (ledger s)" "j < length (snd (ledger s ! i))" "code (snd p) = c"
    and t: "tbl' = (ledger s)[i := (fst p, (snd (ledger s ! i))[j := (snd p)\<lparr>used_by := Some uid\<rparr>])]"
    by auto
  let ?e = "(snd p)\<lparr>used_by := Some uid\<rparr>"
  let ?info = "(snd (ledger s ! i))[j := ?e]"
  have "(fst p, ?info) \<in> set tbl'" using ij(1) t by (simp add: set_update_memI)
  moreover have "?e \<in> set ?info" using ij(2) by (simp add: set_update_memI)
  moreover have "code ?e = c \<and> used_by ?e = Some uid" using ij(3) by simp
  ultimately show ?thesis
    unfolding redeemed_in_def list_ex_iff json_file.case by (metis snd_conv)
qed

lemma demo_counts: "counts demo_sys = []"
  by (simp add: counts_def demo_sys_def)

lemmas run_defs = on_submit_def strip_def isspace_def critical_def enter_def emit_def
  load_json_def dict_of_items_def find_code_def commit_def mark_code_def get_count_def
  assign_roles_def add_role_def save_json_def reject_def raise_locked_def handler_def
  reject_msg_def Let_def

lemma demo_stats_save_fails:
  "fst (on_submit env_stats_save_fails ''B'' ''UD-234567'' demo_sys) = Internal SaveFailed"
  by (simp add: run_defs env_stats_save_fails_def env_all_ok_def demo_sys_def)

lemma demo_self_use:
  "fst (on_submit env_all_ok ''A'' '' UD-123456 '' demo_sys) = Rejected SelfUse"
  by (simp add: run_defs env_all_ok_def demo_sys_def)

lemma grants_append [simp]: "grants (xs @ ys) = grants xs @ grants ys"
  by (induction xs rule: grants.induct) auto

lemma handler_grants [simp]: "grants (events (handler ev e s)) = grants (events s)"
  by (simp add: handler_def Let_def)

lemma raise_locked_grants [simp]: "grants (events (raise_locked ev e s)) = grants (events s)"
  by (simp add: raise_locked_def)

lemma reject_grants [simp]: "grants (events (reject ev r s)) = grants (events s)"
  by (cases r) (simp_all add: reject_def Let_def)

lemma enter_grants [simp]: "grants (events (enter s)) = grants (events s)"
  by (simp add: enter_def Let_def)

lemma assign_roles_None:
  "assign_roles ev uid n s = (None, s') \<Longrightarrow>
     s' = s\<lparr>events := events s @ map (AddRoles uid) (granted_roles ev n)\<rparr> \<and> in_guild ev"
  by (auto simp: assign_roles_def add_role_def granted_roles_def emit_def split: if_splits)

lemma grants_map_AddRoles [simp]: "grants (map (AddRoles uid) rs) = map (Pair uid) rs"
  by (induction rs) auto

lemma commit_events:
  assumes "commit ev uid c owner tbl st s = (Committed n, s')"
  shows "events s' = events s @ [MarkUsed c uid, CountSet uid n]
           @ map (AddRoles uid) (granted_roles ev n)
           @ [SaveInvites, SaveStats, QueueDec, LockRelease]
           @ (if send_ok ev then [Send (MsgSuccess c n)]
              else [Caught SendFailed, LockAcquire]
                   @ (if queue_position s - 1 > 0 then [QueueDec] else [])
                   @ [LockRelease]
                   @ (if error_send_ok ev then [Send (MsgError SendFailed)] else []))"
  using assms
  by (auto simp: commit_def Let_def save_json_def handler_def
      split: sum.splits prod.splits option.splits json_file.splits if_splits
      dest!: assign_roles_None)

lemma decision_point_simps:
  "events (decision_point s) = events s @ [Defer, LockAcquire, QueueInc, LockRelease,
     Sleep (queue_position s + 1), LockAcquire, LoadInvites, LoadStats]"
  "queue_position (decision_point s) = queue_position s + 1"
  "invites_file (decision_point s) = invites_file s"
  "stats_file (decision_point s) = stats_file s"
  by (simp_all add: decision_point_def enter_def emit_def Let_def)

lemma committed_run:
  assumes "on_submit ev uid raw s = (Committed n, s')"
  shows "\<exists>owner. commit ev uid (strip raw) owner (ledger s) (counts s) (decision_point s) =
           (Committed n, s')"
  using assms load_json_Inr [of _ "enter (emit Defer s)"]
  by (auto simp: on_submit_def critical_def Let_def decision_point_def ledger_def counts_def
      split: if_splits sum.splits)

lemma commit_neq_Rejected [simp]: "commit ev uid c owner tbl st s \<noteq> (Rejected r, s')"
  using commit_not_rejected [of ev uid c owner tbl st s r] by auto

lemma rejected_run:
  assumes "on_submit ev uid raw s = (Rejected r, s')"
  shows "s' = reject ev r (decision_point s)"
  using assms
  by (auto simp: on_submit_def critical_def Let_def decision_point_def
      split: if_splits sum.splits)

lemma committed_trace:
  assumes "on_submit ev uid raw s = (Committed n, s')"
  shows "events s' = events s
           @ [Defer, LockAcquire, QueueInc, LockRelease, Sleep (queue_position s + 1),
              LockAcquire, LoadInvites, LoadStats, MarkUsed (strip raw) uid, CountSet uid n]
           @ map (AddRoles uid) (granted_roles ev n)
           @ [SaveInvites, SaveStats, QueueDec, LockRelease]
           @ (if send_ok ev then [Send (MsgSuccess (strip raw) n)]
              else [Caught SendFailed, LockAcquire]
                   @ (if queue_position s > 0 then [QueueDec] else [])
                   @ [LockRelease]
                   @ (if error_send_ok ev then [Send (MsgError SendFailed)] else []))"
proof -
  from committed_run [OF assms] obtain owner where
    "commit ev uid (strip raw) owner (ledger s) (counts s) (decision_point s) = (Committed n, s')"
    by blast
  from commit_events [OF this] show ?thesis
    by (simp add: decision_point_simps)
qed

lemmas run_defs' = run_defs env_all_ok_def demo_sys_def

lemma distinct_counts: "distinct (map fst (counts s))"
  by (simp add: counts_def distinct_dict_of_items split: option.splits json_file.splits)

lemma counts_saved:
  "stats_file s' = Holds (AList.update uid n (counts s)) \<Longrightarrow>
     counts s' = AList.update uid n (counts s)"
  by (simp add: counts_def [of s'] dict_of_items_id distinct_update distinct_counts)

lemma get_count_update:
  "get_count (AList.update uid n st) k = (if k = uid then n else get_count st k)"
  by (simp add: get_count_def update_conv')

lemma stats_cases:
  assumes "on_submit ev uid raw s = (out, s')"
  shows "(stats_file s' = stats_file s \<and> (\<forall>n. out \<noteq> Committed n))
       \<or> (stats_file s' = Truncated \<and> stats_file s \<noteq> Truncated \<and> \<not> save_stats_ok ev \<and>
            save_stats_truncates ev \<and> out = Internal SaveFailed)
       \<or> (counts s' = AList.update uid (get_count (counts s) uid + 1) (counts s) \<and>
            stats_file s' = Holds (AList.update uid (get_count (counts s) uid + 1) (counts s)) \<and>
            out = Committed (get_count (counts s) uid + 1))"
  using on_submit_cases [OF assms]
proof (elim disjE conjE exE)
  fix p s1
  assume s1: "stats_file s1 = stats_file s" and r: "stats_file s \<noteq> Truncated"
    and c: "commit ev uid (strip raw) (Some (fst p)) (ledger s) (counts s) s1 = (out, s')"
  from commit_cases [OF c] show ?thesis
  proof (elim disjE conjE exE)
    fix tbl'
    assume "out = Committed (get_count (counts s) uid + 1)"
      and "stats_file s' = Holds (AList.update uid (get_count (counts s) uid + 1) (counts s))"
    then show ?thesis using counts_saved [of s' uid "get_count (counts s) uid + 1" s] by simp
  qed (use s1 r in \<open>auto split: if_splits\<close>)
qed auto

lemma handler_queue:
  "queue_position (handler ev e s) =
     (if queue_position s > 0 then queue_position s - 1 else queue_position s)"
  by (simp add: handler_def Let_def)

lemma raise_locked_queue:
  "queue_position (raise_locked ev e s) =
     (if queue_position s > 0 then queue_position s - 1 else queue_position s)"
  by (simp add: raise_locked_def handler_queue)

lemma reject_queue:
  "send_ok ev \<Longrightarrow> queue_position (reject ev r s) = queue_position s - 1"
  by (simp add: reject_def Let_def)

lemma enter_queue: "queue_position (enter s) = queue_position s + 1"
  by (simp add: enter_def Let_def)

lemma commit_queue:
  assumes "send_ok ev" "0 < queue_position s"
  shows "queue_position (snd (commit ev uid c owner tbl st s)) = queue_position s - 1"
  using assms
  by (auto simp: commit_def Let_def save_json_def raise_locked_queue
      split: sum.splits prod.splits option.splits json_file.splits dest!: assign_roles_files)

lemma queue_balanced:
  assumes "send_ok ev" "0 \<le> queue_position s"
  shows "queue_position (snd (on_submit ev uid raw s)) = queue_position s"
  using assms
  by (auto simp: on_submit_def critical_def Let_def raise_locked_queue reject_queue
      enter_queue commit_queue split: sum.splits)

lemma randint_digit: "randint 0 9 raw < 10"
  by (simp add: randint_def)

lemma str_nat_digit: "n < 10 \<Longrightarrow> str_nat n = [digit_char n]"
  by simp

lemma digit_char_decimal: "n < 10 \<Longrightarrow> digit_char n \<in> set ''0123456789''"
  unfolding digit_char_def by (rule nth_mem) simp

lemma generate_invite_code_shape:
  "\<exists>ds. generate_invite_code r pos = ''UD-'' @ ds \<and> length ds = 6 \<and> set ds \<subseteq> set ''0123456789''"
proof -
  let ?ds = "map (\<lambda>i. digit_char (randint 0 9 (r (pos + i)))) [0..<6]"
  have "generate_invite_code r pos = ''UD-'' @ ?ds"
    by (simp add: generate_invite_code_def CODE_PREFIX_def str_nat_digit randint_digit
        upt_rec [of 0] upt_rec [of 1] upt_rec [of 2] upt_rec [of 3] upt_rec [of 4] upt_rec [of 5]
        del: str_nat.simps)
  moreover have "length ?ds = 6" by simp
  moreover have "set ?ds \<subseteq> set ''0123456789''"
    using digit_char_decimal [OF randint_digit] by (auto simp del: set_simps list.set)
  ultimately show ?thesis by blast
qed

lemma new_entries_three:
  "new_entries r = [\<lparr>code = generate_invite_code r 0, used_by = None\<rparr>,
                    \<lparr>code = generate_invite_code r 6, used_by = None\<rparr>,
                    \<lparr>code = generate_invite_code r 12, used_by = None\<rparr>]"
  by (simp add: new_entries_def NUM_GENERATED_CODES_def numeral_3_eq_3)

lemma generate_fresh:
  assumes "has_generator_role g" "gen_load_ok g" "gen_save_ok g" "map_of (ledger s) uid = None"
    and "invites_file s \<noteq> Truncated"
  shows "open_dashboard_button g uid s =
           Inr (s\<lparr>invites_file := Holds (ledger s @ [(uid, new_entries (rnd g))])\<rparr>)"
proof -
  have "uid \<notin> fst ` set (ledger s)" using assms(4) by (simp add: map_of_eq_None_iff)
  then have "AList.update uid (new_entries (rnd g)) (ledger s) = ledger s @ [(uid, new_entries (rnd g))]"
    by (rule update_fresh)
  then show ?thesis
    using assms load_json_ledger [of s]
    by (simp add: open_dashboard_button_def save_json_def)
qed

lemma ledger_nonempty_readable: "ledger s \<noteq> [] \<Longrightarrow> invites_file s \<noteq> Truncated"
  by (auto simp: ledger_def)

lemma generate_known:
  assumes "gen_load_ok g" "map_of (ledger s) uid \<noteq> None"
  shows "open_dashboard_button g uid s = Inr s"
proof -
  from assms(2) have "ledger s \<noteq> []" by auto
  then have "invites_file s \<noteq> Truncated" by (rule ledger_nonempty_readable)
  then have "load_json True (invites_file s) = Inr (ledger s)" by (rule load_json_ledger)
  with assms show ?thesis by (auto simp: open_dashboard_button_def)
qed

lemma generate_cases:
  assumes "open_dashboard_button g uid s = Inr s'"
  shows "s' = s \<or> (map_of (ledger s) uid = None \<and>
           s' = s\<lparr>invites_file := Holds (ledger s @ [(uid, new_entries (rnd g))])\<rparr>)"
proof (cases "has_generator_role g")
  case False
  with assms show ?thesis by (simp add: open_dashboard_button_def)
next
  case True
  show ?thesis
  proof (cases "load_json (gen_load_ok g) (invites_file s)")
    case (Inl e)
    with assms True show ?thesis by (simp add: open_dashboard_button_def)
  next
    case (Inr x)
    then have x: "x = ledger s" by (rule load_json_Inr)
    show ?thesis
    proof (cases "map_of (ledger s) uid = None")
      case False
      with assms True Inr x show ?thesis by (simp add: open_dashboard_button_def)
    next
      case None: True
      then have "uid \<notin> fst ` set (ledger s)" by (simp add: map_of_eq_None_iff)
      then have "AList.update uid (new_entries (rnd g)) (ledger s) =
          ledger s @ [(uid, new_entries (rnd g))]"
        by (rule update_fresh)
      with assms True Inr x None show ?thesis
        by (auto simp: open_dashboard_button_def save_json_def split: if_splits)
    qed
  qed
qed

lemma ledger_generated:
  assumes "map_of (ledger s) uid = None"
  shows "ledger (s\<lparr>invites_file := Holds (ledger s @ [(uid, es)])\<rparr>) = ledger s @ [(uid, es)]"
proof -
  have "uid \<notin> fst ` set (ledger s)" using assms by (simp add: map_of_eq_None_iff)
  then have "distinct (map fst (ledger s @ [(uid, es)]))"
    using distinct_ledger [of s] by simp
  then show ?thesis by (simp add: ledger_def [of "s\<lparr>invites_file := _\<rparr>"] dict_of_items_id)
qed

lemma upt_6: "[0..<6] = [0, 1, 2, 3, 4, 5]"
  by (simp add: upt_conv_Cons)

lemma gen_even_codes:
  "generate_invite_code (rnd gen_even) 0 = ''UD-024680''"
  "generate_invite_code (rnd gen_even) 6 = ''UD-246802''"
  "generate_invite_code (rnd gen_even) 12 = ''UD-468024''"
  by (simp_all add: generate_invite_code_def CODE_PREFIX_def randint_def digit_char_def upt_6
      gen_even_def)

lemma gen_counting_codes:
  "generate_invite_code (rnd gen_counting) 0 = ''UD-123456''"
  "generate_invite_code (rnd gen_counting) 6 = ''UD-789012''"
  "generate_invite_code (rnd gen_counting) 12 = ''UD-345678''"
  by (simp_all add: generate_invite_code_def CODE_PREFIX_def randint_def digit_char_def upt_6
      gen_counting_def)

lemma all_codes_append [simp]: "all_codes (xs @ ys) = all_codes xs @ all_codes ys"
  by (simp add: all_codes_def)

lemma demo_generate_even:
  "open_dashboard_button gen_even ''C'' demo_sys =
     Inr (demo_sys\<lparr>invites_file := Holds (ledger demo_sys @ [(''C'', new_entries (rnd gen_even))])\<rparr>)"
  by (rule generate_fresh) (simp_all add: gen_even_def demo_ledger, simp add: demo_sys_def)

lemma demo_generate_counting:
  "open_dashboard_button gen_counting ''C'' demo_sys =
     Inr (demo_sys\<lparr>invites_file := Holds (ledger demo_sys @ [(''C'', new_entries (rnd gen_counting))])\<rparr>)"
  by (rule generate_fresh) (simp_all add: gen_counting_def demo_ledger, simp add: demo_sys_def)

lemma entry_kept_refl: "entry_kept e e"
  by (simp add: entry_kept_def)

lemma entry_kept_trans: "entry_kept a b \<Longrightarrow> entry_kept b c \<Longrightarrow> entry_kept a c"
  by (auto simp: entry_kept_def)

lemma ledger_kept_refl: "ledger_kept t t"
  by (simp add: ledger_kept_def list_all2_same entry_kept_refl)

lemma ledger_kept_trans:
  assumes "ledger_kept a b" "ledger_kept b c"
  shows "ledger_kept a c"
proof -
  have tr: "list_all2 entry_kept x z" if "list_all2 entry_kept x y" "list_all2 entry_kept y z" for x y z
    using that by (rule list_all2_trans [rotated]) (rule entry_kept_trans)
  show ?thesis
    using assms unfolding ledger_kept_def
    by (rule list_all2_trans [rotated]) (auto intro: tr)
qed

lemma ledger_kept_mark:
  assumes "i < length t" "j < length (snd (t ! i))" "used_by (snd (t ! i) ! j) = None"
  shows "ledger_kept t (t[i := (fst (t ! i), (snd (t ! i))[j := (snd (t ! i) ! j)\<lparr>used_by := Some uid\<rparr>])])"
proof -
  let ?es = "snd (t ! i)"
  have "list_all2 entry_kept (?es[j := ?es ! j]) (?es[j := (?es ! j)\<lparr>used_by := Some uid\<rparr>])"
    by (rule list_all2_update_cong) (simp_all add: list_all2_same entry_kept_refl entry_kept_def assms(3))
  then have es: "list_all2 entry_kept ?es (?es[j := (?es ! j)\<lparr>used_by := Some uid\<rparr>])"
    by simp
  have "list_all2 (\<lambda>p p'. fst p' = fst p \<and> list_all2 entry_kept (snd p) (snd p'))
      (t[i := t ! i]) (t[i := (fst (t ! i), ?es[j := (?es ! j)\<lparr>used_by := Some uid\<rparr>])])"
    by (rule list_all2_update_cong) (simp_all add: list_all2_same entry_kept_refl es)
  then show ?thesis by (simp add: ledger_kept_def)
qed

lemma invites_cases:
  assumes "on_submit ev uid raw s = (out, s')"
  shows "invites_file s' = invites_file s
       \<or> (invites_file s' = Truncated \<and> \<not> save_invites_ok ev \<and> save_invites_truncates ev)
       \<or> (\<exists>p tbl'. lookup_code (ledger s) (strip raw) = Some p \<and> used_by (snd p) = None \<and>
             mark_code (Some (fst p)) (strip raw) uid (ledger s) = Inr tbl' \<and>
             invites_file s' = Holds tbl')"
  using on_submit_cases [OF assms]
proof (elim disjE conjE exE)
  fix p s1
  assume p: "lookup_code (ledger s) (strip raw) = Some p" "used_by (snd p) = None"
    and s1: "invites_file s1 = invites_file s"
    and c: "commit ev uid (strip raw) (Some (fst p)) (ledger s) (counts s) s1 = (out, s')"
  from commit_cases [OF c] p s1 show ?thesis
    by (elim disjE conjE exE) (auto split: if_splits)
qed auto

lemma attempt_keeps_ledger:
  assumes "save_invites_ok ev \<or> \<not> save_invites_truncates ev"
  shows "ledger_kept (ledger s) (ledger (snd (on_submit ev uid raw s)))"
proof -
  obtain out s' where run: "on_submit ev uid raw s = (out, s')" by (cases "on_submit ev uid raw s")
  have "ledger_kept (ledger s) (ledger s')"
    using invites_cases [OF run]
  proof (elim disjE conjE exE)
    assume "invites_file s' = invites_file s"
    then show ?thesis using ledger_same [of s' s] by (simp add: ledger_kept_refl)
  next
    assume "\<not> save_invites_ok ev" "save_invites_truncates ev"
    with assms show ?thesis by simp
  next
    fix p tbl'
    assume p: "lookup_code (ledger s) (strip raw) = Some p" "used_by (snd p) = None"
      and m0: "mark_code (Some (fst p)) (strip raw) uid (ledger s) = Inr tbl'"
      and f: "invites_file s' = Holds tbl'"
    from mark_code_frame [OF distinct_ledger p(1), of uid] obtain i j where
      ij: "i < length (ledger s)" "j < length (snd (ledger s ! i))" "fst (ledger s ! i) = fst p"
        "snd (ledger s ! i) ! j = snd p"
      and m: "mark_code (Some (fst p)) (strip raw) uid (ledger s) =
        Inr ((ledger s)[i := (fst p, (snd (ledger s ! i))[j := (snd p)\<lparr>used_by := Some uid\<rparr>])])"
      by blast
    let ?t' = "(ledger s)[i := (fst (ledger s ! i),
        (snd (ledger s ! i))[j := (snd (ledger s ! i) ! j)\<lparr>used_by := Some uid\<rparr>])]"
    have kept: "ledger_kept (ledger s) ?t'"
      using ij p(2) by (intro ledger_kept_mark) simp_all
    have d: "distinct (map fst ?t')"
    proof -
      have "(map fst (ledger s))[i := fst (ledger s ! i)] = map fst (ledger s)"
        using ij(1) by (metis list_update_id nth_map)
      then show ?thesis using distinct_ledger [of s] by (simp add: map_update)
    qed
    have "tbl' = ?t'" using m m0 ij by simp
    with f have "invites_file s' = Holds ?t'" by simp
    with d have "ledger s' = ?t'" by (rule ledger_saved)
    with kept show ?thesis by simp
  qed
  with run show ?thesis by simp
qed

lemma attempt_keeps_readable:
  assumes "\<not> truncating ev"
  shows "invites_file s \<noteq> Truncated \<Longrightarrow> invites_file (snd (on_submit ev uid raw s)) \<noteq> Truncated"
    and "stats_file s \<noteq> Truncated \<Longrightarrow> stats_file (snd (on_submit ev uid raw s)) \<noteq> Truncated"
proof -
  obtain out s' where run: "on_submit ev uid raw s = (out, s')" by (cases "on_submit ev uid raw s")
  show "invites_file s \<noteq> Truncated \<Longrightarrow> invites_file (snd (on_submit ev uid raw s)) \<noteq> Truncated"
    using invites_cases [OF run] assms run by (auto simp: truncating_def)
  show "stats_file s \<noteq> Truncated \<Longrightarrow> stats_file (snd (on_submit ev uid raw s)) \<noteq> Truncated"
    using stats_cases [OF run] assms run by (auto simp: truncating_def)
qed

lemma run_keeps_ledger:
  "list_all (\<lambda>a. \<not> truncating (fst a)) as \<Longrightarrow> ledger_kept (ledger s) (ledger (run_attempts as s))"
proof (induction as arbitrary: s)
  case Nil
  show ?case by (simp add: ledger_kept_refl)
next
  case (Cons a as)
  let ?s1 = "snd (on_submit (fst a) (fst (snd a)) (snd (snd a)) s)"
  have "save_invites_ok (fst a) \<or> \<not> save_invites_truncates (fst a)"
    using Cons.prems by (auto simp: truncating_def)
  then have "ledger_kept (ledger s) (ledger ?s1)" by (rule attempt_keeps_ledger)
  moreover have "ledger_kept (ledger ?s1) (ledger (run_attempts as ?s1))"
    using Cons.prems by (intro Cons.IH) simp
  ultimately have "ledger_kept (ledger s) (ledger (run_attempts as ?s1))"
    by (rule ledger_kept_trans)
  then show ?case by simp
qed

lemma run_keeps_readable:
  "list_all (\<lambda>a. \<not> truncating (fst a)) as \<Longrightarrow> stats_file s \<noteq> Truncated \<Longrightarrow>
     stats_file (run_attempts as s) \<noteq> Truncated"
proof (induction as arbitrary: s)
  case Nil
  then show ?case by simp
next
  case (Cons a as)
  let ?s1 = "snd (on_submit (fst a) (fst (snd a)) (snd (snd a)) s)"
  have "stats_file ?s1 \<noteq> Truncated"
    using Cons.prems by (intro attempt_keeps_readable) simp_all
  then show ?case using Cons.prems Cons.IH [of ?s1] by simp
qed

lemma find_mark_entries:
  "find (\<lambda>e. code e = c) es = Some e \<Longrightarrow>
     find (\<lambda>e. code e = c) (mark_entries c uid es) = Some (e\<lparr>used_by := Some uid\<rparr>)"
  by (induction es) (auto split: if_splits)

lemma lookup_after_mark:
  assumes "distinct (map fst tbl)" "lookup_code tbl c = Some p"
    "mark_code (Some (fst p)) c uid tbl = Inr tbl'"
  shows "lookup_code tbl' c = Some (fst p, (snd p)\<lparr>used_by := Some uid\<rparr>)"
  using assms
proof (induction tbl arbitrary: tbl')
  case Nil
  then show ?case by (simp add: lookup_code_def ledger_entries_def)
next
  case (Cons a tbl)
  obtain k es where a: "a = (k, es)" by (cases a)
  show ?case
  proof (cases "find (\<lambda>e. code e = c) es")
    case (Some e)
    with Cons.prems a have p: "p = (k, e)" by (simp add: lookup_code_Cons)
    with Cons.prems a have "tbl' = (k, mark_entries c uid es) # tbl"
      by (simp add: mark_code_def)
    with Some p show ?thesis by (simp add: lookup_code_Cons find_mark_entries)
  next
    case None
    with Cons.prems a have l: "lookup_code tbl c = Some p" by (simp add: lookup_code_Cons)
    then have "fst p \<in> fst ` set tbl" by (force dest: lookup_code_owner)
    with Cons.prems(1) a have ne: "k \<noteq> fst p" by auto
    from Cons.prems(3) a ne obtain info where info: "map_of tbl (fst p) = Some info"
      and t': "tbl' = (k, es) # AList.update (fst p) (mark_entries c uid info) tbl"
      by (auto simp: mark_code_def split: option.splits json_file.splits)
    from info have "mark_code (Some (fst p)) c uid tbl =
        Inr (AList.update (fst p) (mark_entries c uid info) tbl)"
      by (simp add: mark_code_def)
    with Cons.IH [OF _ l] Cons.prems(1)
    have "lookup_code (AList.update (fst p) (mark_entries c uid info) tbl) c =
        Some (fst p, (snd p)\<lparr>used_by := Some uid\<rparr>)" by simp
    with t' None show ?thesis by (simp add: lookup_code_Cons)
  qed
qed

lemma find_kept:
  assumes "list_all2 R xs ys" "find P xs = Some x" "\<And>a b. R a b \<Longrightarrow> P b = P a"
  shows "\<exists>y. find P ys = Some y \<and> R x y"
  using assms(1,2)
proof (induction rule: list_all2_induct)
  case Nil
  then show ?case by simp
next
  case (Cons a as b bs)
  then show ?case using assms(3) [of a b] by (auto split: if_splits)
qed

lemma ledger_entries_kept:
  assumes "ledger_kept t t'"
  shows "list_all2 (\<lambda>q q'. fst q' = fst q \<and> entry_kept (snd q) (snd q'))
           (ledger_entries t) (ledger_entries t')"
  using assms unfolding ledger_kept_def
proof (induction rule: list_all2_induct)
  case Nil
  then show ?case by (simp add: ledger_entries_def)
next
  case (Cons p ps p' ps')
  have "list_all2 (\<lambda>q q'. fst q' = fst q \<and> entry_kept (snd q) (snd q'))
      (map (Pair (fst p)) (snd p)) (map (Pair (fst p')) (snd p'))"
    using Cons.hyps(1) by (simp add: list_all2_map1 list_all2_map2)
  with Cons.IH show ?case
    by (simp add: ledger_entries_def list_all2_appendI)
qed

lemma used_lookup_kept:
  assumes "ledger_kept t t'" "lookup_code t c = Some p" "used_by (snd p) \<noteq> None"
  shows "\<exists>p'. lookup_code t' c = Some p' \<and> fst p' = fst p \<and> used_by (snd p') = used_by (snd p)"
proof -
  from find_kept [OF ledger_entries_kept [OF assms(1)], of "\<lambda>q. code (snd q) = c" p]
    assms(2)
  obtain p' where "lookup_code t' c = Some p'" "fst p' = fst p" "entry_kept (snd p) (snd p')"
    by (auto simp: lookup_code_def entry_kept_def)
  with assms(3) show ?thesis by (auto simp: entry_kept_def)
qed

lemma strip_demo2: "strip ''UD-234567 '' = ''UD-234567''"
  by (simp add: strip_def isspace_def)

lemma generate_invite_code_explicit:
  "generate_invite_code r pos = ''UD-'' @ map (\<lambda>i. ''0123456789'' ! (r (pos + i) mod 10)) [0..<6]"
proof -
  have "str_nat (randint 0 9 (r (pos + i))) = [''0123456789'' ! (r (pos + i) mod 10)]" for i
    using str_nat_digit [OF randint_digit, of "r (pos + i)"]
    by (simp add: digit_char_def randint_def del: str_nat.simps)
  then show ?thesis
    by (simp add: generate_invite_code_def CODE_PREFIX_def del: str_nat.simps upt.simps)
qed

lemma new_entries_explicit:
  "new_entries r =
     map (\<lambda>j. \<lparr>code = ''UD-'' @ map (\<lambda>i. ''0123456789'' ! (r (6 * j + i) mod 10)) [0..<6],
                used_by = None\<rparr>) [0..<3]"
  by (simp add: new_entries_def NUM_GENERATED_CODES_def generate_invite_code_explicit
      del: upt.simps)

lemma lookup_code_readable:
  "lookup_code (ledger s) c = Some p \<Longrightarrow> invites_file s \<noteq> Truncated"
  by (rule ledger_nonempty_readable) (auto simp: lookup_code_def ledger_entries_def)

lemma demo_readable: "invites_file demo_sys \<noteq> Truncated" "stats_file demo_sys \<noteq> Truncated"
  by (simp_all add: demo_sys_def)

lemma demo_after_commit:
  "snd (on_submit env_all_ok ''B'' ''UD-234567'' demo_sys) =
     \<lparr>invites_file = Holds [(''A'', [\<lparr>code = ''UD-123456'', used_by = None\<rparr>,
                                       \<lparr>code = ''UD-234567'', used_by = Some ''B''\<rparr>])],
      stats_file = Holds [(''B'', 1)], queue_position = 0,
      events = [Defer, LockAcquire, QueueInc, LockRelease, Sleep 1, LockAcquire, LoadInvites,
        LoadStats, MarkUsed ''UD-234567'' ''B'', CountSet ''B'' 1,
        AddRoles ''B'' FIRST_INVITE_ROLE_ID, SaveInvites, SaveStats, QueueDec, LockRelease,
        Send (MsgSuccess ''UD-234567'' 1)]\<rparr>"
  by (simp add: run_defs')

lemma demo_stats_write_fails:
  "fst (on_submit env_stats_write_fails ''B'' ''UD-234567'' demo_sys) = Internal SaveFailed"
  by (simp add: run_defs' env_stats_write_fails_def)

lemma truncated_load_fails:
  assumes "invites_file s = Truncated" "defer_ok ev"
  shows "fst (on_submit ev uid raw s) = Internal LoadFailed"
  using assms by (simp add: on_submit_def critical_def enter_def emit_def load_json_def Let_def)

lemma upt_3: "[0..<3] = [0, 1, 2]"
  by (simp add: upt_conv_Cons)

lemma truncated_stats_load_fails:
  assumes "stats_file s = Truncated" "defer_ok ev"
  shows "fst (on_submit ev uid raw s) = Internal LoadFailed"
  using assms
  by (simp add: on_submit_def critical_def enter_def emit_def load_json_def Let_def
      split: json_file.splits)

section \<open>Verified properties\<close>

text \<open>
  C1. Persistence per attempt. A rejected attempt leaves both files as they were, and so
  does an internal failure raised before the first save (a failed load or grant). An
  attempt that succeeds has written both tables: the code is marked for the redeemer and
  the redeemer has the new count. The two tables are written one after the other, and
  a save that raises has either left its file alone (it failed on opening) or emptied it
  (it failed after opening): when the invites save fails, the invites file is as it was
  or truncated and the stats file is as it was; when the stats save fails after the
  invites save succeeded, the invites file holds the marked code and the stats file is
  as it was or truncated.
\<close>
theorem persistence_by_outcome:
  assumes "on_submit ev uid raw s = (out, s')"
  shows "(\<forall>r. out = Rejected r \<longrightarrow>
            invites_file s' = invites_file s \<and> stats_file s' = stats_file s)
       \<and> (\<forall>f. out = Internal f \<and> f \<noteq> SaveFailed \<longrightarrow>
            invites_file s' = invites_file s \<and> stats_file s' = stats_file s)
       \<and> (out = Internal SaveFailed \<and> \<not> save_invites_ok ev \<longrightarrow>
            invites_file s' = (if save_invites_truncates ev then Truncated else invites_file s) \<and>
            stats_file s' = stats_file s)
       \<and> (out = Internal SaveFailed \<and> save_invites_ok ev \<longrightarrow>
            redeemed_in (invites_file s') (strip raw) uid \<and>
            stats_file s' = (if save_stats_truncates ev then Truncated else stats_file s))
       \<and> (\<forall>n. out = Committed n \<longrightarrow>
            redeemed_in (invites_file s') (strip raw) uid \<and>
            (\<exists>st'. stats_file s' = Holds st' \<and> map_of st' uid = Some n))"
proof -
  from on_submit_cases [OF assms] consider
    (early) "out = Internal DeferFailed \<or> out = Internal LoadFailed"
      "invites_file s' = invites_file s" "stats_file s' = stats_file s"
  | (rej) r where "out = Rejected r" "invites_file s' = invites_file s" "stats_file s' = stats_file s"
  | (acc) p s1 where "lookup_code (ledger s) (strip raw) = Some p"
      "invites_file s1 = invites_file s" "stats_file s1 = stats_file s"
      "commit ev uid (strip raw) (Some (fst p)) (ledger s) (counts s) s1 = (out, s')"
    by blast
  then show ?thesis
  proof cases
    case early
    then show ?thesis by auto
  next
    case rej
    then show ?thesis by auto
  next
    case acc
    from commit_cases [OF acc(4)] show ?thesis
    proof (elim disjE conjE exE)
      fix f assume "out = Internal f" "f \<noteq> SaveFailed"
        "invites_file s' = invites_file s1" "stats_file s' = stats_file s1"
      with acc(2,3) show ?thesis by simp
    next
      assume "out = Internal SaveFailed" "\<not> save_invites_ok ev" "stats_file s' = stats_file s1"
        "invites_file s' = (if save_invites_truncates ev then Truncated else invites_file s1)"
      with acc(2,3) show ?thesis by simp
    next
      fix tbl'
      assume "out = Internal SaveFailed" "save_invites_ok ev" "\<not> save_stats_ok ev"
        "mark_code (Some (fst p)) (strip raw) uid (ledger s) = Inr tbl'"
        "invites_file s' = Holds tbl'"
        "stats_file s' = (if save_stats_truncates ev then Truncated else stats_file s1)"
      with acc(1,3) mark_code_redeemed [OF acc(1), of uid tbl'] show ?thesis by simp
    next
      fix tbl'
      assume "mark_code (Some (fst p)) (strip raw) uid (ledger s) = Inr tbl'"
        "out = Committed (get_count (counts s) uid + 1)" "invites_file s' = Holds tbl'"
        "stats_file s' = Holds (AList.update uid (get_count (counts s) uid + 1) (counts s))"
      with mark_code_redeemed [OF acc(1), of uid tbl'] show ?thesis
        by (simp add: update_conv')
    qed
  qed
qed

text \<open>
  C1 on the example state: a stats save that fails on opening after B redeemed UD-234567
  leaves the code marked and the stats file absent, a stats save that fails while
  writing leaves the stats file truncated, and A's rejected attempt on their own code
  leaves the invites file as it was.
\<close>
theorem persistence_by_outcome_witness:
  "redeemed_in (invites_file (snd (on_submit env_stats_save_fails ''B'' ''UD-234567'' demo_sys)))
     ''UD-234567'' ''B''
   \<and> stats_file (snd (on_submit env_stats_save_fails ''B'' ''UD-234567'' demo_sys)) = Absent
   \<and> stats_file (snd (on_submit env_stats_write_fails ''B'' ''UD-234567'' demo_sys)) = Truncated
   \<and> invites_file (snd (on_submit env_all_ok ''A'' '' UD-123456 '' demo_sys)) = invites_file demo_sys"
proof -
  have r1: "on_submit env_stats_save_fails ''B'' ''UD-234567'' demo_sys =
      (Internal SaveFailed, snd (on_submit env_stats_save_fails ''B'' ''UD-234567'' demo_sys))"
    using demo_stats_save_fails by (simp add: prod_eq_iff)
  have h1: "save_invites_ok env_stats_save_fails" "\<not> save_stats_truncates env_stats_save_fails"
    by (simp_all add: env_stats_save_fails_def env_all_ok_def)
  have r3: "on_submit env_stats_write_fails ''B'' ''UD-234567'' demo_sys =
      (Internal SaveFailed, snd (on_submit env_stats_write_fails ''B'' ''UD-234567'' demo_sys))"
    using demo_stats_write_fails by (simp add: prod_eq_iff)
  have h3: "save_invites_ok env_stats_write_fails" "save_stats_truncates env_stats_write_fails"
    by (simp_all add: env_stats_write_fails_def env_all_ok_def)
  have r2: "on_submit env_all_ok ''A'' '' UD-123456 '' demo_sys =
      (Rejected SelfUse, snd (on_submit env_all_ok ''A'' '' UD-123456 '' demo_sys))"
    using demo_self_use by (simp add: prod_eq_iff)
  have d: "stats_file demo_sys = Absent" by (simp add: demo_sys_def)
  from persistence_by_outcome [OF r1] h1 d persistence_by_outcome [OF r2]
    persistence_by_outcome [OF r3] h3
  show ?thesis by (simp add: strip_demo)
qed

text \<open>
  C1, counterexample to all-or-nothing persistence: user B redeems UD-234567 and the save
  of the stats table fails. The attempt ends in an internal failure, the invites file
  has changed (the code is marked as used by B) and the stats file has not.
\<close>
theorem partial_persistence_counterexample:
  "fst (on_submit env_stats_save_fails ''B'' ''UD-234567'' demo_sys) = Internal SaveFailed
   \<and> invites_file (snd (on_submit env_stats_save_fails ''B'' ''UD-234567'' demo_sys)) =
       Holds [(''A'', [\<lparr>code = ''UD-123456'', used_by = None\<rparr>,
                       \<lparr>code = ''UD-234567'', used_by = Some ''B''\<rparr>])]
   \<and> invites_file (snd (on_submit env_stats_save_fails ''B'' ''UD-234567'' demo_sys)) \<noteq>
       invites_file demo_sys
   \<and> stats_file (snd (on_submit env_stats_save_fails ''B'' ''UD-234567'' demo_sys)) =
       stats_file demo_sys
   \<and> stats_file demo_sys = Absent"
  by (simp add: run_defs env_stats_save_fails_def env_all_ok_def demo_sys_def)

text \<open>
  C2. Order of the steps of a successful redemption, as the trace records them: after the
  ticket, the sleep and the reloads, the code is marked, the incremented count is set,
  the role grant is requested (when the count is 1 or 2 and the guild has the role) while
  the lock is held and before anything is saved, then the invites table and the stats
  table are saved, the ticket is released, the lock is released, and the confirmation is
  sent; when that send fails the handler runs instead.
\<close>
theorem commit_order:
  assumes "on_submit ev uid raw s = (Committed n, s')"
  shows "events s' = events s
           @ [Defer, LockAcquire, QueueInc, LockRelease, Sleep (queue_position s + 1),
              LockAcquire, LoadInvites, LoadStats, MarkUsed (strip raw) uid, CountSet uid n]
           @ map (AddRoles uid) (granted_roles ev n)
           @ [SaveInvites, SaveStats, QueueDec, LockRelease]
           @ (if send_ok ev then [Send (MsgSuccess (strip raw) n)]
              else [Caught SendFailed, LockAcquire]
                   @ (if queue_position s > 0 then [QueueDec] else [])
                   @ [LockRelease]
                   @ (if error_send_ok ev then [Send (MsgError SendFailed)] else []))"
  using committed_trace [OF assms] .

text \<open>
  C2 on the example state: the trace of B's successful redemption of UD-234567.
\<close>
theorem commit_order_witness:
  "events (snd (on_submit env_all_ok ''B'' ''UD-234567'' demo_sys)) =
     [Defer, LockAcquire, QueueInc, LockRelease, Sleep 1, LockAcquire, LoadInvites, LoadStats,
      MarkUsed ''UD-234567'' ''B'', CountSet ''B'' 1, AddRoles ''B'' FIRST_INVITE_ROLE_ID,
      SaveInvites, SaveStats, QueueDec, LockRelease, Send (MsgSuccess ''UD-234567'' 1)]"
proof -
  have run: "on_submit env_all_ok ''B'' ''UD-234567'' demo_sys =
      (Committed 1, snd (on_submit env_all_ok ''B'' ''UD-234567'' demo_sys))"
    using demo_commit by (simp add: prod_eq_iff)
  from commit_order [OF run] show ?thesis
    by (simp add: granted_roles_def env_all_ok_def demo_sys_def strip_demo)
qed

text \<open>
  C2, counterexample to dispatch after release: in the successful redemption of UD-234567
  by B the grant is requested with the lock held and before the tables are saved, so the
  specification's order does not hold of the trace.
\<close>
theorem dispatch_inside_lock_counterexample:
  "fst (on_submit env_all_ok ''B'' ''UD-234567'' demo_sys) = Committed 1
   \<and> \<not> dispatch_ok False False (events (snd (on_submit env_all_ok ''B'' ''UD-234567'' demo_sys)))"
  by (simp add: run_defs')

text \<open>
  C3. Validation runs against the reloaded ledger in a fixed order. For an attempt whose
  defer and reloads do not raise on a readable file: when a file has been left truncated
  by an earlier failed save, the reload raises and the attempt ends in an internal
  failure; otherwise a code that occurs in no entry is rejected as not found; otherwise
  a code whose entry is already used is rejected as already used, also when the redeemer
  owns it; otherwise a redeemer who owns the code is rejected for self use; otherwise
  the attempt proceeds to the commit and is never rejected, and it commits with the
  incremented count when no later call fails.
\<close>
theorem validation_order:
  assumes "defer_ok ev" "load_invites_ok ev" "load_stats_ok ev"
  shows "if invites_file s = Truncated \<or> stats_file s = Truncated
         then fst (on_submit ev uid raw s) = Internal LoadFailed
         else ((\<forall>p \<in> set (ledger_entries (ledger s)). code (snd p) \<noteq> strip raw) \<longrightarrow>
            fst (on_submit ev uid raw s) = Rejected NotFound)
       \<and> (spec_validate (ledger s) (strip raw) uid = Reject r \<longrightarrow>
            fst (on_submit ev uid raw s) = Rejected r)
       \<and> (spec_validate (ledger s) (strip raw) uid = Accept \<longrightarrow>
            (\<forall>r'. fst (on_submit ev uid raw s) \<noteq> Rejected r') \<and>
            (in_guild ev \<and> member_found ev \<and> add_roles_ok ev \<and> save_invites_ok ev \<and> save_stats_ok ev \<longrightarrow>
               fst (on_submit ev uid raw s) = Committed (get_count (counts s) uid + 1)))"
proof (cases "invites_file s = Truncated \<or> stats_file s = Truncated")
  case True
  then have "fst (on_submit ev uid raw s) = Internal LoadFailed"
    using truncated_load_fails [OF _ assms(1)] truncated_stats_load_fails [OF _ assms(1)]
    by blast
  with True show ?thesis by simp
next
  case False
  then have rd: "invites_file s \<noteq> Truncated" "stats_file s \<noteq> Truncated" by simp_all
  note loaded = on_submit_loaded [OF assms rd]
  have nf: "fst (on_submit ev uid raw s) = Rejected NotFound"
    if "\<forall>p \<in> set (ledger_entries (ledger s)). code (snd p) \<noteq> strip raw"
  proof -
    from that have "spec_validate (ledger s) (strip raw) uid = Reject NotFound"
      by (simp add: spec_validate_def lookup_code_None [symmetric])
    then show ?thesis by (simp add: loaded Let_def)
  qed
  have rj: "fst (on_submit ev uid raw s) = Rejected r"
    if "spec_validate (ledger s) (strip raw) uid = Reject r"
    using that by (simp add: loaded Let_def)
  have nr: "\<forall>r'. fst (on_submit ev uid raw s) \<noteq> Rejected r'"
    if "spec_validate (ledger s) (strip raw) uid = Accept"
    using that by (simp add: loaded Let_def commit_not_rejected)
  have cm: "fst (on_submit ev uid raw s) = Committed (get_count (counts s) uid + 1)"
    if acc: "spec_validate (ledger s) (strip raw) uid = Accept"
      and ok: "in_guild ev \<and> member_found ev \<and> add_roles_ok ev \<and> save_invites_ok ev \<and> save_stats_ok ev"
  proof -
    from acc obtain p where p: "lookup_code (ledger s) (strip raw) = Some p"
      by (auto simp: spec_validate_def split: option.splits)
    then obtain tbl' where "mark_code (Some (fst p)) (strip raw) uid (ledger s) = Inr tbl'"
      by (blast dest: mark_code_Inr)
    with ok acc p show ?thesis by (simp add: loaded Let_def commit_ok)
  qed
  from nf rj nr cm False show ?thesis by simp
qed

text \<open>
  C3 on the example state: A entering their own unused code, with blanks around it, is
  rejected for self use.
\<close>
theorem validation_order_witness:
  "fst (on_submit env_all_ok ''A'' '' UD-123456 '' demo_sys) = Rejected SelfUse
   \<and> fst (on_submit env_all_ok ''B'' ''UD-234567'' demo_sys) = Committed 1"
proof -
  have e: "defer_ok env_all_ok" "load_invites_ok env_all_ok" "load_stats_ok env_all_ok"
    by (simp_all add: env_all_ok_def)
  have ok: "in_guild env_all_ok \<and> member_found env_all_ok \<and> add_roles_ok env_all_ok \<and>
      save_invites_ok env_all_ok \<and> save_stats_ok env_all_ok"
    by (simp add: env_all_ok_def)
  have v1: "spec_validate (ledger demo_sys) (strip '' UD-123456 '') ''A'' = Reject SelfUse"
    by (simp add: demo_ledger strip_demo spec_validate_def lookup_code_def ledger_entries_def)
  have v2: "spec_validate (ledger demo_sys) (strip ''UD-234567'') ''B'' = Accept"
    by (simp add: demo_ledger strip_demo spec_validate_def lookup_code_def ledger_entries_def)
  have c: "get_count (counts demo_sys) ''B'' + 1 = 1"
    by (simp add: get_count_def counts_def demo_sys_def)
  from validation_order [OF e, where s = demo_sys and raw = "'' UD-123456 ''" and uid = "''A''"
      and r = SelfUse] v1 demo_readable
  have "fst (on_submit env_all_ok ''A'' '' UD-123456 '' demo_sys) = Rejected SelfUse"
    by simp
  moreover from validation_order [OF e, where s = demo_sys and raw = "''UD-234567''" and uid = "''B''"
      and r = NotFound] v2 ok c
    demo_readable
  have "fst (on_submit env_all_ok ''B'' ''UD-234567'' demo_sys) = Committed 1"
    by simp
  ultimately show ?thesis by simp
qed

text \<open>
  C4. Ticket balance fails when the reply cannot be delivered. One other attempt holds a
  ticket (the counter is 1); B submits a code that does not exist and the follow-up
  message raises. The rejection branch has already decremented the counter when the
  exception reaches the handler, which decrements it again: one increment is followed
  by two decrements and the counter ends at 0 while the other attempt is still
  outstanding. (\<open>queue_balanced\<close> shows the counter is restored whenever the reply is
  delivered.)
\<close>
theorem queue_double_decrement:
  "fst (on_submit env_send_fails ''B'' ''UD-000000'' demo_sys_queued) = Rejected NotFound
   \<and> queue_position demo_sys_queued = 1
   \<and> queue_position (snd (on_submit env_send_fails ''B'' ''UD-000000'' demo_sys_queued)) = 0
   \<and> events (snd (on_submit env_send_fails ''B'' ''UD-000000'' demo_sys_queued)) =
       [Defer, LockAcquire, QueueInc, LockRelease, Sleep 2, LockAcquire, LoadInvites, LoadStats,
        QueueDec, LockRelease, Caught SendFailed, LockAcquire, QueueDec, LockRelease,
        Send (MsgError SendFailed)]"
  by (simp add: run_defs' env_send_fails_def demo_sys_queued_def)

text \<open>
  C5. Once a code has been redeemed its \<open>used_by\<close> is final, as long as no later save fails
  while writing. After a successful redemption of a code by \<open>uid\<close>, and after any further
  sequence of attempts none of which truncates a file, the ledger still finds the code
  as used by \<open>uid\<close>; an attempt on that code by anyone (whose reloads succeed) is rejected
  as already used and leaves both files exactly as they were. Over every such sequence
  of attempts the ledger is kept: the owners and codes stay in place and an entry that
  is used keeps its redeemer, so the set of used codes only grows and no code is marked
  for two redeemers.
\<close>
theorem used_by_is_final:
  assumes "on_submit ev uid raw s = (Committed n, s1)"
    and "list_all (\<lambda>a. \<not> truncating (fst a)) as"
    and "defer_ok ev2" "load_invites_ok ev2" "load_stats_ok ev2" "strip raw2 = strip raw"
  shows "fst (on_submit ev2 uid2 raw2 (run_attempts as s1)) = Rejected AlreadyUsed
       \<and> invites_file (snd (on_submit ev2 uid2 raw2 (run_attempts as s1))) =
           invites_file (run_attempts as s1)
       \<and> stats_file (snd (on_submit ev2 uid2 raw2 (run_attempts as s1))) =
           stats_file (run_attempts as s1)
       \<and> (\<exists>p. lookup_code (ledger (run_attempts as s1)) (strip raw) = Some p \<and>
              used_by (snd p) = Some uid)
       \<and> (\<forall>bs t. list_all (\<lambda>a. \<not> truncating (fst a)) bs \<longrightarrow>
              ledger_kept (ledger t) (ledger (run_attempts bs t)))"
proof -
  let ?t = "run_attempts as s1"
  from committedD [OF assms(1)] obtain p tbl' where
    p: "lookup_code (ledger s) (strip raw) = Some p"
    and m: "mark_code (Some (fst p)) (strip raw) uid (ledger s) = Inr tbl'"
    and f: "invites_file s1 = Holds tbl'"
    and st: "stats_file s1 = Holds (AList.update uid n (counts s))"
    by blast
  from mark_code_frame [OF distinct_ledger p, of uid] m obtain i where
    "i < length (ledger s)" "map fst tbl' = (map fst (ledger s))[i := fst (ledger s ! i)]"
    by (auto simp: map_update)
  then have "map fst tbl' = map fst (ledger s)"
    by (metis list_update_id nth_map)
  then have "distinct (map fst tbl')" using distinct_ledger [of s] by simp
  then have "ledger s1 = tbl'" using f by (rule ledger_saved)
  with lookup_after_mark [OF distinct_ledger p m]
  have l1: "lookup_code (ledger s1) (strip raw) = Some (fst p, (snd p)\<lparr>used_by := Some uid\<rparr>)"
    by simp
  from used_lookup_kept [OF run_keeps_ledger [OF assms(2)] l1]
  obtain p' where p': "lookup_code (ledger ?t) (strip raw) = Some p'" "used_by (snd p') = Some uid"
    by auto
  then have v: "spec_validate (ledger ?t) (strip raw2) uid2 = Reject AlreadyUsed"
    using assms(6) by (simp add: spec_validate_def)
  have ri: "invites_file ?t \<noteq> Truncated" using p'(1) by (rule lookup_code_readable)
  have rs: "stats_file ?t \<noteq> Truncated"
    using assms(2) st by (intro run_keeps_readable) simp_all
  have "on_submit ev2 uid2 raw2 ?t = (Rejected AlreadyUsed, reject ev2 AlreadyUsed (decision_point ?t))"
    using on_submit_loaded [OF assms(3-5) ri rs, of uid2 raw2] v
    by (simp add: Let_def decision_point_def)
  then show ?thesis using p' run_keeps_ledger by (auto simp: decision_point_simps)
qed

text \<open>
  C5 on the example state: B redeems UD-234567, D then redeems UD-123456, and D's later
  attempt on UD-234567 is rejected as already used.
\<close>
theorem used_by_is_final_witness:
  "fst (on_submit env_all_ok ''D'' ''UD-234567 ''
         (run_attempts [(env_all_ok, ''D'', ''UD-123456'')]
            (snd (on_submit env_all_ok ''B'' ''UD-234567'' demo_sys)))) = Rejected AlreadyUsed"
proof -
  have run: "on_submit env_all_ok ''B'' ''UD-234567'' demo_sys =
      (Committed 1, snd (on_submit env_all_ok ''B'' ''UD-234567'' demo_sys))"
    using demo_commit by (simp add: prod_eq_iff)
  have a: "list_all (\<lambda>a. \<not> truncating (fst a)) [(env_all_ok, ''D'', ''UD-123456'')]"
    by (simp add: truncating_def env_all_ok_def)
  have e: "defer_ok env_all_ok" "load_invites_ok env_all_ok" "load_stats_ok env_all_ok"
    by (simp_all add: env_all_ok_def)
  have s: "strip ''UD-234567 '' = strip ''UD-234567''"
    by (simp add: strip_demo strip_demo2)
  from used_by_is_final [OF run a e s] show ?thesis by blast
qed

text \<open>
  C5, counterexample to unconditional finality: B redeems UD-234567, which the invites
  file then records. D's redemption of UD-123456 fails while the invites table is being
  written: the file is left truncated, the record that B used UD-234567 is gone from
  it, and E's later attempt on UD-234567 ends in an internal failure of the reload
  instead of the rejection as already used.
\<close>
theorem truncated_ledger_counterexample:
  "fst (on_submit env_all_ok ''B'' ''UD-234567'' demo_sys) = Committed 1
   \<and> redeemed_in (invites_file (snd (on_submit env_all_ok ''B'' ''UD-234567'' demo_sys)))
        ''UD-234567'' ''B''
   \<and> invites_file (run_attempts [(env_invites_write_fails, ''D'', ''UD-123456'')]
        (snd (on_submit env_all_ok ''B'' ''UD-234567'' demo_sys))) = Truncated
   \<and> \<not> redeemed_in (invites_file (run_attempts [(env_invites_write_fails, ''D'', ''UD-123456'')]
        (snd (on_submit env_all_ok ''B'' ''UD-234567'' demo_sys)))) ''UD-234567'' ''B''
   \<and> fst (on_submit env_all_ok ''E'' ''UD-234567''
        (run_attempts [(env_invites_write_fails, ''D'', ''UD-123456'')]
           (snd (on_submit env_all_ok ''B'' ''UD-234567'' demo_sys)))) = Internal LoadFailed"
proof -
  let ?s1 = "snd (on_submit env_all_ok ''B'' ''UD-234567'' demo_sys)"
  have t: "invites_file (run_attempts [(env_invites_write_fails, ''D'', ''UD-123456'')] ?s1) = Truncated"
    unfolding demo_after_commit
    by (simp add: run_defs env_invites_write_fails_def env_all_ok_def)
  have "fst (on_submit env_all_ok ''E'' ''UD-234567''
      (run_attempts [(env_invites_write_fails, ''D'', ''UD-123456'')] ?s1)) = Internal LoadFailed"
    using t by (intro truncated_load_fails) (simp_all add: env_all_ok_def)
  moreover have "redeemed_in (invites_file ?s1) ''UD-234567'' ''B''"
    by (simp add: demo_after_commit redeemed_in_def)
  ultimately show ?thesis using t demo_commit by (simp add: redeemed_in_def)
qed

text \<open>
  C6. Uniqueness of codes after a generation: when the codes of the ledger were pairwise
  different before, and the freshly drawn codes are pairwise different and occur nowhere
  in the ledger, then all codes of the ledger are pairwise different afterwards. The
  generator itself never compares a drawn code with anything.
\<close>
theorem unique_when_fresh:
  assumes "open_dashboard_button g uid s = Inr s'"
    and "distinct (all_codes (ledger s))"
    and "distinct (map code (new_entries (rnd g)))"
    and "set (map code (new_entries (rnd g))) \<inter> set (all_codes (ledger s)) = {}"
  shows "distinct (all_codes (ledger s'))"
proof -
  from generate_cases [OF assms(1)] show ?thesis
  proof
    assume "s' = s"
    with assms(2) show ?thesis by simp
  next
    assume a: "map_of (ledger s) uid = None \<and>
        s' = s\<lparr>invites_file := Holds (ledger s @ [(uid, new_entries (rnd g))])\<rparr>"
    then have "ledger s' = ledger s @ [(uid, new_entries (rnd g))]"
      by (simp add: ledger_generated)
    then have "all_codes (ledger s') = all_codes (ledger s) @ map code (new_entries (rnd g))"
      by (simp add: all_codes_def)
    with assms(2-4) show ?thesis by auto
  qed
qed

text \<open>
  C6 on the example state with the generator that yields 0, 2, 4, ...: the codes drawn for
  C are new, and the ledger has pairwise different codes afterwards.
\<close>
theorem unique_when_fresh_witness:
  "distinct (all_codes (ledger (state_after (open_dashboard_button gen_even ''C'' demo_sys) demo_sys)))"
proof -
  let ?s' = "demo_sys\<lparr>invites_file := Holds (ledger demo_sys @ [(''C'', new_entries (rnd gen_even))])\<rparr>"
  have 1: "distinct (all_codes (ledger demo_sys))"
    by (simp add: demo_ledger all_codes_def)
  have 2: "distinct (map code (new_entries (rnd gen_even)))"
    by (simp add: new_entries_three gen_even_codes)
  have 3: "set (map code (new_entries (rnd gen_even))) \<inter> set (all_codes (ledger demo_sys)) = {}"
    by (simp add: new_entries_three gen_even_codes demo_ledger all_codes_def)
  from unique_when_fresh [OF demo_generate_even 1 2 3]
  show ?thesis by (simp add: state_after_def demo_generate_even)
qed

text \<open>
  C6, counterexample to unconditional uniqueness: the ledger holds A's codes UD-123456 and
  UD-234567; the random generator yields 1, 2, 3, ... and C requests codes. The first
  code drawn for C is UD-123456 again, and it is stored without any check.
\<close>
theorem code_collision_counterexample:
  "distinct (all_codes (ledger demo_sys))
   \<and> all_codes (ledger (state_after (open_dashboard_button gen_counting ''C'' demo_sys) demo_sys)) =
       [''UD-123456'', ''UD-234567'', ''UD-123456'', ''UD-789012'', ''UD-345678'']
   \<and> \<not> distinct (all_codes (ledger (state_after (open_dashboard_button gen_counting ''C'' demo_sys) demo_sys)))"
proof -
  have "map_of (ledger demo_sys) ''C'' = None" by (simp add: demo_ledger)
  then have "ledger (state_after (open_dashboard_button gen_counting ''C'' demo_sys) demo_sys) =
      ledger demo_sys @ [(''C'', new_entries (rnd gen_counting))]"
    by (simp add: state_after_def demo_generate_counting ledger_generated)
  then show ?thesis
    by (simp add: demo_ledger all_codes_def new_entries_three gen_counting_codes)
qed

text \<open>
  C7. Grants per attempt: a successful redemption requests exactly the grant that belongs
  to the new count, the first role for count 1 and the second role for count 2, each only
  when the guild has that role, and nothing for any other count; a rejected attempt
  requests no grant.
\<close>
theorem grants_by_count:
  assumes "on_submit ev uid raw s = (out, s')"
  shows "(\<forall>n. out = Committed n \<longrightarrow>
            grants (events s') = grants (events s) @ map (Pair uid) (granted_roles ev n))
       \<and> (\<forall>r. out = Rejected r \<longrightarrow> grants (events s') = grants (events s))"
proof (intro conjI allI impI)
  fix n assume "out = Committed n"
  with assms have "on_submit ev uid raw s = (Committed n, s')" by simp
  from committed_trace [OF this] show "grants (events s') = grants (events s) @ map (Pair uid) (granted_roles ev n)"
    by simp
next
  fix r assume "out = Rejected r"
  with assms have "s' = reject ev r (decision_point s)" by (simp add: rejected_run)
  then show "grants (events s') = grants (events s)"
    by (simp add: decision_point_simps)
qed

text \<open>
  C7 on the example state: B's first redemption requests the first role and nothing else.
\<close>
theorem grants_by_count_witness:
  "grants (events (snd (on_submit env_all_ok ''B'' ''UD-234567'' demo_sys))) =
     [(''B'', FIRST_INVITE_ROLE_ID)]
   \<and> grants (events (snd (on_submit env_all_ok ''A'' '' UD-123456 '' demo_sys))) = []"
proof -
  have r1: "on_submit env_all_ok ''B'' ''UD-234567'' demo_sys =
      (Committed 1, snd (on_submit env_all_ok ''B'' ''UD-234567'' demo_sys))"
    using demo_commit by (simp add: prod_eq_iff)
  have r2: "on_submit env_all_ok ''A'' '' UD-123456 '' demo_sys =
      (Rejected SelfUse, snd (on_submit env_all_ok ''A'' '' UD-123456 '' demo_sys))"
    using demo_self_use by (simp add: prod_eq_iff)
  from grants_by_count [OF r1] grants_by_count [OF r2] show ?thesis
    by (simp add: granted_roles_def env_all_ok_def demo_sys_def)
qed

text \<open>
  C7, counterexample to a grant exactly when the count is 1: B's first redemption
  succeeds with new count 1 in a guild that does not have the first role, and no grant
  is requested.
\<close>
theorem missing_role_counterexample:
  "fst (on_submit env_no_first_role ''B'' ''UD-234567'' demo_sys) = Committed 1
   \<and> grants (events (snd (on_submit env_no_first_role ''B'' ''UD-234567'' demo_sys))) = []"
  by (simp add: run_defs' env_no_first_role_def)

text \<open>
  C8. A member with the generator role whose id is not a key of the invites table gets,
  when the file operations succeed, exactly three new entries appended under their id;
  each is unused, and the code of entry \<open>j\<close> is the prefix UD- followed by exactly six
  decimal digits, digit \<open>i\<close> being the \<open>(6 j + i)\<close>-th output of the random generator
  reduced modulo 10; nothing else in either table changes. From then on the id is a key
  of the table and a request by the same user leaves the state as it is: no codes are
  created and the existing entries stay.
\<close>
theorem first_request_generates:
  assumes "has_generator_role g" "gen_load_ok g" "gen_save_ok g" "invites_file s \<noteq> Truncated"
  shows "(map_of (ledger s) uid = None \<longrightarrow>
            (let s' = s\<lparr>invites_file := Holds (ledger s @
                   [(uid, map (\<lambda>j. \<lparr>code = ''UD-'' @
                                  map (\<lambda>i. ''0123456789'' ! (rnd g (6 * j + i) mod 10)) [0..<6],
                                used_by = None\<rparr>) [0..<3])])\<rparr>
             in open_dashboard_button g uid s = Inr s' \<and>
                (\<forall>g'. gen_load_ok g' \<longrightarrow> open_dashboard_button g' uid s' = Inr s')))
       \<and> (map_of (ledger s) uid \<noteq> None \<longrightarrow> open_dashboard_button g uid s = Inr s)"
proof (intro conjI impI)
  assume fresh: "map_of (ledger s) uid = None"
  let ?s' = "s\<lparr>invites_file := Holds (ledger s @ [(uid, new_entries (rnd g))])\<rparr>"
  have run: "open_dashboard_button g uid s = Inr ?s'"
    using assms(1-3) fresh assms(4) by (rule generate_fresh)
  have "map_of (ledger ?s') uid \<noteq> None"
    by (simp add: ledger_generated [OF fresh])
  then have later: "\<forall>g'. gen_load_ok g' \<longrightarrow> open_dashboard_button g' uid ?s' = Inr ?s'"
    by (simp add: generate_known)
  from run later
  show "let s' = s\<lparr>invites_file := Holds (ledger s @
                   [(uid, map (\<lambda>j. \<lparr>code = ''UD-'' @
                                  map (\<lambda>i. ''0123456789'' ! (rnd g (6 * j + i) mod 10)) [0..<6],
                                used_by = None\<rparr>) [0..<3])])\<rparr>
        in open_dashboard_button g uid s = Inr s' \<and>
           (\<forall>g'. gen_load_ok g' \<longrightarrow> open_dashboard_button g' uid s' = Inr s')"
    unfolding Let_def new_entries_explicit [symmetric] by blast
next
  assume "map_of (ledger s) uid \<noteq> None"
  with assms(2) show "open_dashboard_button g uid s = Inr s" by (rule generate_known)
qed

text \<open>
  C8 on the example state with the generator that yields 0, 2, 4, ...: C gets the codes
  UD-024680, UD-246802 and UD-468024, and A, who has codes, gets nothing new.
\<close>
theorem first_request_generates_witness:
  "open_dashboard_button gen_even ''C'' demo_sys =
     Inr (demo_sys\<lparr>invites_file := Holds
       [(''A'', [\<lparr>code = ''UD-123456'', used_by = None\<rparr>,
                 \<lparr>code = ''UD-234567'', used_by = None\<rparr>]),
        (''C'', [\<lparr>code = ''UD-024680'', used_by = None\<rparr>,
                 \<lparr>code = ''UD-246802'', used_by = None\<rparr>,
                 \<lparr>code = ''UD-468024'', used_by = None\<rparr>])]\<rparr>)
   \<and> open_dashboard_button gen_even ''A'' demo_sys = Inr demo_sys"
proof -
  have g: "has_generator_role gen_even" "gen_load_ok gen_even" "gen_save_ok gen_even"
    by (simp_all add: gen_even_def)
  have c: "map_of (ledger demo_sys) ''C'' = None" and a: "map_of (ledger demo_sys) ''A'' \<noteq> None"
    by (simp_all add: demo_ledger)
  have r: "rnd gen_even = (\<lambda>i. 2 * i)" by (simp add: gen_even_def)
  from first_request_generates [OF g demo_readable(1), of "''A''"] a
  have "open_dashboard_button gen_even ''A'' demo_sys = Inr demo_sys" by blast
  moreover from first_request_generates [OF g demo_readable(1), of "''C''"] c
  have "open_dashboard_button gen_even ''C'' demo_sys =
     Inr (demo_sys\<lparr>invites_file := Holds
       [(''A'', [\<lparr>code = ''UD-123456'', used_by = None\<rparr>,
                 \<lparr>code = ''UD-234567'', used_by = None\<rparr>]),
        (''C'', [\<lparr>code = ''UD-024680'', used_by = None\<rparr>,
                 \<lparr>code = ''UD-246802'', used_by = None\<rparr>,
                 \<lparr>code = ''UD-468024'', used_by = None\<rparr>])]\<rparr>)"
    by (simp add: Let_def demo_ledger r upt_3 upt_6 del: upt.simps)
  ultimately show ?thesis by simp
qed

text \<open>
  C9. Frame of a successful redemption: the invites table that is written differs from
  the reloaded one in exactly one entry, an unused entry carrying the entered code whose
  \<open>used_by\<close> becomes the redeemer; every other entry of every owner is the same. The
  stats table that is written gives the redeemer the new count and every other user
  the count they had.
\<close>
theorem commit_frame:
  assumes "on_submit ev uid raw s = (Committed n, s')"
  shows "\<exists>i j. i < length (ledger s) \<and> j < length (snd (ledger s ! i)) \<and>
           code (snd (ledger s ! i) ! j) = strip raw \<and>
           used_by (snd (ledger s ! i) ! j) = None \<and>
           invites_file s' =
             Holds ((ledger s)[i := (fst (ledger s ! i),
                     (snd (ledger s ! i))[j := (snd (ledger s ! i) ! j)\<lparr>used_by := Some uid\<rparr>])]) \<and>
           (\<exists>st'. stats_file s' = Holds st' \<and> map_of st' uid = Some n \<and>
                  (\<forall>k. k \<noteq> uid \<longrightarrow> map_of st' k = map_of (counts s) k))"
proof -
  from committedD [OF assms] obtain p tbl' where
    p: "lookup_code (ledger s) (strip raw) = Some p" "used_by (snd p) = None"
    and m: "mark_code (Some (fst p)) (strip raw) uid (ledger s) = Inr tbl'"
    and f: "invites_file s' = Holds tbl'" "stats_file s' = Holds (AList.update uid n (counts s))"
    by blast
  from mark_code_frame [OF distinct_ledger p(1), of uid] obtain i j where
    ij: "i < length (ledger s)" "j < length (snd (ledger s ! i))" "fst (ledger s ! i) = fst p"
      "snd (ledger s ! i) ! j = snd p" "code (snd p) = strip raw"
    and m': "mark_code (Some (fst p)) (strip raw) uid (ledger s) =
       Inr ((ledger s)[i := (fst p, (snd (ledger s ! i))[j := (snd p)\<lparr>used_by := Some uid\<rparr>])])"
    by blast
  have "invites_file s' =
      Holds ((ledger s)[i := (fst (ledger s ! i),
              (snd (ledger s ! i))[j := (snd (ledger s ! i) ! j)\<lparr>used_by := Some uid\<rparr>])])"
    using m m' f(1) ij by simp
  moreover have "map_of (AList.update uid n (counts s)) uid = Some n"
    by (simp add: update_conv')
  moreover have "\<forall>k. k \<noteq> uid \<longrightarrow> map_of (AList.update uid n (counts s)) k = map_of (counts s) k"
    by (simp add: update_conv')
  ultimately show ?thesis using ij p(2) f(2) by (intro exI [of _ i] exI [of _ j]) simp
qed

text \<open>
  C9 on the example state: B's redemption of UD-234567 changes that one entry.
\<close>
theorem commit_frame_witness:
  "invites_file (snd (on_submit env_all_ok ''B'' ''UD-234567'' demo_sys)) =
     Holds [(''A'', [\<lparr>code = ''UD-123456'', used_by = None\<rparr>,
                    \<lparr>code = ''UD-234567'', used_by = Some ''B''\<rparr>])]"
proof -
  have run: "on_submit env_all_ok ''B'' ''UD-234567'' demo_sys =
      (Committed 1, snd (on_submit env_all_ok ''B'' ''UD-234567'' demo_sys))"
    using demo_commit by (simp add: prod_eq_iff)
  from commit_frame [OF run] obtain i j where
    "i < length (ledger demo_sys)" "j < length (snd (ledger demo_sys ! i))"
    "code (snd (ledger demo_sys ! i) ! j) = strip ''UD-234567''"
    and eq: "invites_file (snd (on_submit env_all_ok ''B'' ''UD-234567'' demo_sys)) =
       Holds ((ledger demo_sys)[i := (fst (ledger demo_sys ! i),
         (snd (ledger demo_sys ! i))[j := (snd (ledger demo_sys ! i) ! j)\<lparr>used_by := Some ''B''\<rparr>])])"
    by blast
  then have "i = 0" "j = 1"
    by (auto simp: demo_ledger strip_demo less_Suc_eq numeral_2_eq_2)
  with eq show ?thesis by (simp add: demo_ledger)
qed

text \<open>
  C10. A redeemer without an entry in the stats table counts as 0: their first successful
  redemption produces the count 1, stores it under their id, and requests the first-role
  grant when the guild has that role. Unless the stats save fails while writing, every
  attempt keeps all stored counts positive when they were positive before (an absent
  file stores none) and no user's count decreases. A readable stats file is lost only
  in that way: by an attempt that ends in the failure of a stats save that truncates.
\<close>
theorem first_redemption_count:
  assumes "on_submit ev uid raw s = (out, s')"
  shows "(\<forall>n. out = Committed n \<and> map_of (counts s) uid = None \<longrightarrow>
            n = 1 \<and> map_of (counts s') uid = Some 1 \<and>
            grants (events s') =
              grants (events s) @ (if first_role_found ev then [(uid, FIRST_INVITE_ROLE_ID)] else []))
       \<and> (save_stats_ok ev \<or> \<not> save_stats_truncates ev \<longrightarrow>
            ((\<forall>k v. map_of (counts s) k = Some v \<longrightarrow> 0 < v) \<longrightarrow>
               (\<forall>k v. map_of (counts s') k = Some v \<longrightarrow> 0 < v)) \<and>
            (\<forall>k. get_count (counts s) k \<le> get_count (counts s') k))
       \<and> (stats_file s' = Truncated \<and> stats_file s \<noteq> Truncated \<longrightarrow>
            out = Internal SaveFailed \<and> \<not> save_stats_ok ev \<and> save_stats_truncates ev)"
proof -
  have first: "n = 1 \<and> map_of (counts s') uid = Some 1 \<and>
      grants (events s') =
        grants (events s) @ (if first_role_found ev then [(uid, FIRST_INVITE_ROLE_ID)] else [])"
    if a: "out = Committed n \<and> map_of (counts s) uid = None" for n
  proof -
    have n: "n = 1" using stats_cases [OF assms] a by (auto simp: get_count_def)
    have m: "map_of (counts s') uid = Some 1"
      using stats_cases [OF assms] a n by (auto simp: update_conv')
    have "on_submit ev uid raw s = (Committed 1, s')" using assms a n by simp
    from committed_trace [OF this]
    have "grants (events s') =
        grants (events s) @ (if first_role_found ev then [(uid, FIRST_INVITE_ROLE_ID)] else [])"
      by (simp add: granted_roles_def)
    with n m show ?thesis by simp
  qed
  have same: "counts s' = counts s" if "stats_file s' = stats_file s"
    using that by (simp add: counts_def)
  have kept: "(counts s' = counts s \<and> (\<forall>n. out \<noteq> Committed n))
      \<or> (counts s' = AList.update uid (get_count (counts s) uid + 1) (counts s) \<and>
          out = Committed (get_count (counts s) uid + 1))"
    if "save_stats_ok ev \<or> \<not> save_stats_truncates ev"
    using stats_cases [OF assms] that same by blast
  have pos: "0 < v"
    if e: "save_stats_ok ev \<or> \<not> save_stats_truncates ev"
      and p: "\<forall>k v. map_of (counts s) k = Some v \<longrightarrow> 0 < v"
      and kv: "map_of (counts s') k = Some v" for k v
    using kept [OF e]
  proof
    assume "counts s' = counts s \<and> (\<forall>n. out \<noteq> Committed n)"
    with p kv show ?thesis by auto
  next
    assume c: "counts s' = AList.update uid (get_count (counts s) uid + 1) (counts s) \<and>
        out = Committed (get_count (counts s) uid + 1)"
    have "0 \<le> get_count (counts s) uid"
      using p by (auto simp: get_count_def split: option.splits dest: less_imp_le)
    with c kv p show ?thesis by (auto simp: update_conv' split: if_splits)
  qed
  have mono: "get_count (counts s) k \<le> get_count (counts s') k"
    if e: "save_stats_ok ev \<or> \<not> save_stats_truncates ev" for k
    using kept [OF e] by (auto simp: get_count_update)
  have lost: "out = Internal SaveFailed \<and> \<not> save_stats_ok ev \<and> save_stats_truncates ev"
    if "stats_file s' = Truncated \<and> stats_file s \<noteq> Truncated"
    using stats_cases [OF assms] that by auto
  from first pos mono lost show ?thesis by blast
qed

text \<open>
  C10 on the example state: B's first redemption stores the count 1 for B.
\<close>
theorem first_redemption_count_witness:
  "map_of (counts (snd (on_submit env_all_ok ''B'' ''UD-234567'' demo_sys))) ''B'' = Some 1
   \<and> get_count (counts demo_sys) ''B'' \<le>
       get_count (counts (snd (on_submit env_all_ok ''B'' ''UD-234567'' demo_sys))) ''B''"
proof -
  have run: "on_submit env_all_ok ''B'' ''UD-234567'' demo_sys =
      (Committed 1, snd (on_submit env_all_ok ''B'' ''UD-234567'' demo_sys))"
    using demo_commit by (simp add: prod_eq_iff)
  have "map_of (counts demo_sys) ''B'' = None" by (simp add: demo_counts)
  moreover have "save_stats_ok env_all_ok" by (simp add: env_all_ok_def)
  ultimately show ?thesis using first_redemption_count [OF run] by blast
qed

text \<open>
  C10, counterexample to a first redemption that always triggers the tier-1 grant, and to
  counts that never decrease: B has no stats entry and redeems UD-234567 in a guild
  without the first role; the redemption commits with count 1, B's entry is created, and
  no grant is requested. When instead the stats save fails while writing, the stats file
  is left truncated and C's count of 2 is no longer stored.
\<close>
theorem first_redemption_no_grant_counterexample:
  "map_of (counts demo_sys_with_stats) ''B'' = None
   \<and> fst (on_submit env_no_first_role ''B'' ''UD-234567'' demo_sys_with_stats) = Committed 1
   \<and> stats_file (snd (on_submit env_no_first_role ''B'' ''UD-234567'' demo_sys_with_stats)) =
       Holds [(''C'', 2), (''B'', 1)]
   \<and> grants (events (snd (on_submit env_no_first_role ''B'' ''UD-234567'' demo_sys_with_stats))) = []
   \<and> get_count (counts demo_sys_with_stats) ''C'' = 2
   \<and> fst (on_submit env_stats_write_fails ''B'' ''UD-234567'' demo_sys_with_stats) =
       Internal SaveFailed
   \<and> stats_file (snd (on_submit env_stats_write_fails ''B'' ''UD-234567'' demo_sys_with_stats)) =
       Truncated
   \<and> get_count (counts (snd (on_submit env_stats_write_fails ''B'' ''UD-234567''
       demo_sys_with_stats))) ''C'' = 0"
  by (simp add: run_defs' env_no_first_role_def env_stats_write_fails_def demo_sys_with_stats_def
      counts_def)

end
